theory Spec2Isabelle
  imports Main "HOL-Library.Product_Lexorder"
begin

section \<open>Strings and errors\<close>

text \<open>
  A Python string is the list of its code points; \<open>ustr\<close> turns a written text into
  one, and \<open>dot\<close> is the code point of the full stop. The regular expression class
  \<open>\d\<close> and the function \<open>int\<close> take every decimal digit of Unicode (category Nd):
  these stand in runs of ten code points for the values 0 to 9, and \<open>ND_STARTS\<close> lists
  the zero of each run. \<open>str.strip()\<close> removes the code points of \<open>WHITESPACE\<close>. Both
  tables are those of Unicode 14, the version of CPython 3.11. Exceptions are values of
  \<open>error\<close>; the text of an error is a constant of the program and is kept as written.
\<close>

type_synonym ustring = "int list"

abbreviation ustr :: "string \<Rightarrow> ustring" where
  "ustr s \<equiv> map of_char s"

abbreviation (input) dot :: int where
  "dot \<equiv> 46"

datatype error = ValueError string | TypeError string | OverflowError string

definition ND_STARTS :: "int list" where
  "ND_STARTS = [48, 1632, 1776, 1984, 2406, 2534, 2662, 2790, 2918, 3046, 3174, 3302, 3430,
     3558, 3664, 3792, 3872, 4160, 4240, 6112, 6160, 6470, 6608, 6784, 6800, 6992, 7088, 7232,
     7248, 42528, 43216, 43264, 43472, 43504, 43600, 44016, 65296, 66720, 68912, 69734, 69872,
     69942, 70096, 70384, 70736, 70864, 71248, 71360, 71472, 71904, 72016, 72784, 73040, 73120,
     92768, 92864, 93008, 120782, 120792, 120802, 120812, 120822, 123200, 123632, 125264,
     130032]"

definition WHITESPACE :: "int list" where
  "WHITESPACE = [9, 10, 11, 12, 13, 28, 29, 30, 31, 32, 133, 160, 5760, 8192, 8193, 8194, 8195,
     8196, 8197, 8198, 8199, 8200, 8201, 8202, 8232, 8233, 8239, 8287, 12288]"

definition in_run :: "int \<Rightarrow> int \<Rightarrow> bool" where
  "in_run c z = (z \<le> c \<and> c < z + 10)"

definition is_digit :: "int \<Rightarrow> bool" where
  "is_digit c = list_ex (in_run c) ND_STARTS"

definition digit_val :: "int \<Rightarrow> int" where
  "digit_val c = (case find (in_run c) ND_STARTS of Some z \<Rightarrow> c - z | None \<Rightarrow> 0)"

definition is_space :: "int \<Rightarrow> bool" where
  "is_space c = (c \<in> set WHITESPACE)"

definition strip :: "ustring \<Rightarrow> ustring" where
  "strip s = rev (dropWhile is_space (rev (dropWhile is_space s)))"

text \<open>\<open>re.sub(r"\D", "", s)\<close>: every character that is not a digit is deleted.\<close>

definition re_sub_non_digits :: "ustring \<Rightarrow> ustring" where
  "re_sub_non_digits s = filter is_digit s"

section \<open>Field validators\<close>


text \<open>\<open>Phone.__init__\<close>: the digits of the text, which must be ten.\<close>

definition Phone :: "ustring \<Rightarrow> error + ustring" where
  "Phone v = (let digits = re_sub_non_digits v in
     if length digits \<noteq> 10 then Inl (ValueError ''Phone must contain exactly 10 digits'')
     else Inr digits)"

section \<open>Calendar dates\<close>

text \<open>
  The \<open>date\<close> class of Python's \<open>datetime\<close> module: the proleptic Gregorian calendar
  for the years 1 to 9999. \<open>date_new\<close> is the constructor \<open>date(year, month, day)\<close>,
  which raises \<open>ValueError\<close> on a day that does not exist; \<open>toordinal\<close> counts days from
  1 January of year 1, \<open>weekday\<close> is 0 on Monday and 6 on Sunday, two dates compare as the
  triples (year, month, day), and their difference is the difference of the ordinals.
\<close>

record date =
  year :: int
  month :: int
  day :: int

definition MINYEAR :: int where "MINYEAR = 1"
definition MAXYEAR :: int where "MAXYEAR = 9999"
definition MAXORDINAL :: int where "MAXORDINAL = 3652059"

definition is_leap :: "int \<Rightarrow> bool" where
  "is_leap y = (y mod 4 = 0 \<and> (y mod 100 \<noteq> 0 \<or> y mod 400 = 0))"

definition DAYS_IN_MONTH :: "int list" where
  "DAYS_IN_MONTH = [-1, 31, 28, 31, 30, 31, 30, 31, 31, 30, 31, 30, 31]"

definition DAYS_BEFORE_MONTH :: "int list" where
  "DAYS_BEFORE_MONTH = [-1, 0, 31, 59, 90, 120, 151, 181, 212, 243, 273, 304, 334]"

definition days_in_month :: "int \<Rightarrow> int \<Rightarrow> int" where
  "days_in_month y m = (if m = 2 \<and> is_leap y then 29 else DAYS_IN_MONTH ! nat m)"

definition days_before_year :: "int \<Rightarrow> int" where
  "days_before_year y = (let y' = y - 1 in y' * 365 + y' div 4 - y' div 100 + y' div 400)"

definition days_before_month :: "int \<Rightarrow> int \<Rightarrow> int" where
  "days_before_month y m = DAYS_BEFORE_MONTH ! nat m + (if m > 2 \<and> is_leap y then 1 else 0)"

definition valid_date :: "date \<Rightarrow> bool" where
  "valid_date d = (MINYEAR \<le> year d \<and> year d \<le> MAXYEAR \<and> 1 \<le> month d \<and> month d \<le> 12 \<and>
     1 \<le> day d \<and> day d \<le> days_in_month (year d) (month d))"

definition date_new :: "int \<Rightarrow> int \<Rightarrow> int \<Rightarrow> error + date" where
  "date_new y m d =
     (if \<not> (MINYEAR \<le> y \<and> y \<le> MAXYEAR) then Inl (ValueError ''year is out of range'')
      else if \<not> (1 \<le> m \<and> m \<le> 12) then Inl (ValueError ''month must be in 1..12'')
      else if \<not> (1 \<le> d \<and> d \<le> days_in_month y m) then
        Inl (ValueError ''day is out of range for month'')
      else Inr \<lparr>year = y, month = m, day = d\<rparr>)"

definition toordinal :: "date \<Rightarrow> int" where
  "toordinal d = days_before_year (year d) + days_before_month (year d) (month d) + day d"

definition weekday :: "date \<Rightarrow> int" where
  "weekday d = (toordinal d + 6) mod 7"

definition date_key :: "date \<Rightarrow> int \<times> int \<times> int" where
  "date_key d = (year d, month d, day d)"

definition date_less :: "date \<Rightarrow> date \<Rightarrow> bool" where
  "date_less a b = (date_key a < date_key b)"

definition days_between :: "date \<Rightarrow> date \<Rightarrow> int" where
  "days_between a b = toordinal a - toordinal b"

text \<open>
  \<open>d + timedelta(days=n)\<close> for \<open>n \<ge> 0\<close>: the date \<open>n\<close> days after \<open>d\<close>, and
  \<open>OverflowError\<close> when that is after 31 December 9999.
\<close>

definition next_day :: "date \<Rightarrow> date" where
  "next_day d =
     (if day d < days_in_month (year d) (month d) then d\<lparr>day := day d + 1\<rparr>
      else if month d < 12 then d\<lparr>month := month d + 1, day := 1\<rparr>
      else \<lparr>year = year d + 1, month = 1, day = 1\<rparr>)"

fun add_days :: "date \<Rightarrow> nat \<Rightarrow> date" where
  "add_days d 0 = d"
| "add_days d (Suc n) = add_days (next_day d) n"

definition date_add :: "date \<Rightarrow> nat \<Rightarrow> error + date" where
  "date_add d n =
     (if toordinal d + int n > MAXORDINAL then Inl (OverflowError ''date value out of range'')
      else Inr (add_days d n))"

subsection \<open>Formatting and parsing with the format \<open>%d.%m.%Y\<close>\<close>

text \<open>
  \<open>strftime\<close> writes the day and the month with two digits, zero-padded, and the year
  as the C library of Linux does under CPython 3.11: as a decimal number with no
  padding, so that a year below 1000 has fewer than four digits.
\<close>

definition digit_char :: "int \<Rightarrow> int" where
  "digit_char n = 48 + n"

function decimal :: "int \<Rightarrow> ustring" where
  "decimal n = (if n < 10 then [48 + n] else decimal (n div 10) @ [48 + n mod 10])"
  by pat_completeness auto
termination
  by (relation "measure nat") auto

declare decimal.simps [simp del]

definition pad2 :: "int \<Rightarrow> ustring" where
  "pad2 n = [digit_char (n div 10 mod 10), digit_char (n mod 10)]"

definition strftime :: "date \<Rightarrow> ustring" where
  "strftime d = pad2 (day d) @ [dot] @ pad2 (month d) @ [dot] @ decimal (year d)"

text \<open>
  \<open>strptime\<close> turns the format into the regular expression
  \<open>(3[0-1]|[1-2]\d|0[1-9]|[1-9]| [1-9])\.(1[0-2]|0[1-9]|[1-9])\.(\d\d\d\d)\<close> and matches it
  at the start of the text. A matcher returns, in the order in which a backtracking
  matcher tries them, the pairs of a matched token and the text left; the first complete
  match is taken, text left over after it is an error, and the three tokens are read with
  \<open>int\<close> and passed to the constructor of \<open>date\<close>. A bracket of the expression
  stands for the characters written in it, \<open>\d\<close> for any decimal digit.
\<close>

definition alt1 :: "(int \<Rightarrow> bool) \<Rightarrow> ustring \<Rightarrow> (ustring \<times> ustring) list" where
  "alt1 P s = (case s of a # r \<Rightarrow> if P a then [([a], r)] else [] | _ \<Rightarrow> [])"

definition alt2 :: "(int \<Rightarrow> bool) \<Rightarrow> (int \<Rightarrow> bool) \<Rightarrow> ustring \<Rightarrow> (ustring \<times> ustring) list" where
  "alt2 P Q s = (case s of a # b # r \<Rightarrow> if P a \<and> Q b then [([a, b], r)] else [] | _ \<Rightarrow> [])"

definition one_of :: "ustring \<Rightarrow> int \<Rightarrow> bool" where
  "one_of cs c = (c \<in> set cs)"

definition re_d :: "ustring \<Rightarrow> (ustring \<times> ustring) list" where
  "re_d s = alt2 (one_of (ustr ''3'')) (one_of (ustr ''01'')) s @ alt2 (one_of (ustr ''12'')) is_digit s @
     alt2 (one_of (ustr ''0'')) (one_of (ustr ''123456789'')) s @ alt1 (one_of (ustr ''123456789'')) s @
     alt2 (one_of (ustr '' '')) (one_of (ustr ''123456789'')) s"

definition re_m :: "ustring \<Rightarrow> (ustring \<times> ustring) list" where
  "re_m s = alt2 (one_of (ustr ''1'')) (one_of (ustr ''012'')) s @
     alt2 (one_of (ustr ''0'')) (one_of (ustr ''123456789'')) s @ alt1 (one_of (ustr ''123456789'')) s"

definition re_Y :: "ustring \<Rightarrow> (ustring \<times> ustring) list" where
  "re_Y s = (case s of a # b # c # d # r \<Rightarrow>
       if is_digit a \<and> is_digit b \<and> is_digit c \<and> is_digit d then [([a, b, c, d], r)] else []
     | _ \<Rightarrow> [])"

definition re_dot :: "ustring \<Rightarrow> ustring list" where
  "re_dot s = (case s of c # r \<Rightarrow> if c = dot then [r] else [] | _ \<Rightarrow> [])"

definition re_match :: "ustring \<Rightarrow> ((ustring \<times> ustring \<times> ustring) \<times> ustring) list" where
  "re_match s = [((d, m, y), r5). (d, r1) \<leftarrow> re_d s, r2 \<leftarrow> re_dot r1, (m, r3) \<leftarrow> re_m r2,
     r4 \<leftarrow> re_dot r3, (y, r5) \<leftarrow> re_Y r4]"

definition py_int :: "ustring \<Rightarrow> int" where
  "py_int s = foldl (\<lambda>a c. 10 * a + digit_val c) 0 (strip s)"

definition strptime :: "ustring \<Rightarrow> error + date" where
  "strptime s = (case re_match s of
       [] \<Rightarrow> Inl (ValueError ''time data does not match format'')
     | ((d, m, y), rest) # _ \<Rightarrow>
         if rest \<noteq> [] then Inl (ValueError ''unconverted data remains'')
         else date_new (py_int y) (py_int m) (py_int d))"

section \<open>Birthday\<close>

text \<open>
  The argument of \<open>Birthday\<close> is a text, a \<open>date\<close>, a \<open>datetime\<close> (of which only the
  date part is kept here) or a value of another type. \<open>_parse_birthday\<close> tests
  \<open>isinstance(value, date)\<close> first, which holds for a \<open>datetime\<close> as well, so that a
  \<open>datetime\<close> is returned as it is and the comparison with \<open>date.today()\<close> in the
  constructor raises \<open>TypeError\<close>. The evaluation date \<open>today\<close> is a parameter.
\<close>

datatype pyvalue = PyStr ustring | PyDate date | PyDateTime date | PyOther

definition parse_birthday :: "pyvalue \<Rightarrow> error + pyvalue" where
  "parse_birthday v = (case v of
       PyDate d \<Rightarrow> Inr (PyDate d)
     | PyDateTime d \<Rightarrow> Inr (PyDateTime d)
     | PyStr s \<Rightarrow> (case strptime (strip s) of
           Inl e \<Rightarrow> Inl (ValueError ''Invalid date format. Use DD.MM.YYYY'')
         | Inr d \<Rightarrow> Inr (PyDate d))
     | PyOther \<Rightarrow> Inl (ValueError ''Invalid date format. Use DD.MM.YYYY''))"

definition Birthday :: "date \<Rightarrow> pyvalue \<Rightarrow> error + date" where
  "Birthday today v = (case parse_birthday v of
       Inl e \<Rightarrow> Inl e
     | Inr (PyDate d) \<Rightarrow>
         if date_less today d then Inl (ValueError ''Birthday cannot be in the future'')
         else Inr d
     | Inr _ \<Rightarrow> Inl (TypeError ''cannot compare datetime.datetime to datetime.date''))"

definition Birthday_str :: "date \<Rightarrow> ustring" where
  "Birthday_str d = strftime d"

section \<open>Record\<close>

text \<open>
  A \<open>Record\<close> holds the value of its \<open>Name\<close>, the values of its \<open>Phone\<close>s in order and
  the date of its \<open>Birthday\<close>, if any. A method returns its outcome (the exception raised
  or the value returned) together with the record as the call leaves it.
\<close>

record Record =
  name :: ustring
  phones :: "ustring list"
  birthday :: "date option"





text \<open>\<open>list.pop(i)\<close> for an index in range.\<close>

definition pop :: "'a list \<Rightarrow> nat \<Rightarrow> 'a list" where
  "pop xs i = take i xs @ drop (Suc i) xs"

text \<open>
  The loop of \<open>edit_phone\<close> over \<open>enumerate(self.phones)\<close>: \<open>ps\<close> is the whole list,
  \<open>i\<close> the index of the head of the entries still to visit.
\<close>

fun edit_phone_loop :: "ustring \<Rightarrow> ustring \<Rightarrow> ustring list \<Rightarrow> nat \<Rightarrow> ustring list \<Rightarrow> bool \<times> ustring list" where
  "edit_phone_loop old_digits new_p ps i [] = (False, ps)"
| "edit_phone_loop old_digits new_p ps i (p # rest) =
     (if p = old_digits then
        (if list_ex (\<lambda>x. x = new_p) ps then (True, pop ps i)
         else (True, ps[i := new_p]))
      else edit_phone_loop old_digits new_p ps (Suc i) rest)"

definition edit_phone :: "Record \<Rightarrow> ustring \<Rightarrow> ustring \<Rightarrow> (error + bool) \<times> Record" where
  "edit_phone r phone_old phone_new = (let old_digits = re_sub_non_digits phone_old in
     case Phone phone_new of
       Inl e \<Rightarrow> (Inl e, r)
     | Inr new_p \<Rightarrow>
         (case edit_phone_loop old_digits new_p (phones r) 0 (phones r) of
            (b, ps) \<Rightarrow> (Inr b, r\<lparr>phones := ps\<rparr>)))"

definition add_birthday :: "date \<Rightarrow> Record \<Rightarrow> pyvalue \<Rightarrow> (error + unit) \<times> Record" where
  "add_birthday today r v =
     (if birthday r \<noteq> None then (Inl (ValueError ''Birthday is already set for this contact''), r)
      else case Birthday today v of
          Inl e \<Rightarrow> (Inl e, r)
        | Inr d \<Rightarrow> (Inr (), r\<lparr>birthday := Some d\<rparr>))"




section \<open>AddressBook\<close>

text \<open>
  The dictionary \<open>data\<close> of the \<open>AddressBook\<close> is a list of pairs of a key and a
  record, in insertion order and with no key twice: an assignment to a key that is
  present replaces the value where it stands, an assignment to a new key appends.
\<close>

type_synonym AddressBook = "(ustring \<times> Record) list"

fun dict_set :: "('k \<times> 'v) list \<Rightarrow> 'k \<Rightarrow> 'v \<Rightarrow> ('k \<times> 'v) list" where
  "dict_set [] k v = [(k, v)]"
| "dict_set ((k', v') # kvs) k v =
     (if k' = k then (k, v) # kvs else (k', v') # dict_set kvs k v)"

definition dict_del :: "('k \<times> 'v) list \<Rightarrow> 'k \<Rightarrow> ('k \<times> 'v) list" where
  "dict_del kvs k = filter (\<lambda>kv. fst kv \<noteq> k) kvs"

definition add_record :: "AddressBook \<Rightarrow> Record \<Rightarrow> AddressBook" where
  "add_record book r = dict_set book (name r) r"

definition find_record :: "AddressBook \<Rightarrow> ustring \<Rightarrow> Record option" where
  "find_record book n = map_of book n"

definition delete :: "AddressBook \<Rightarrow> ustring \<Rightarrow> bool \<times> AddressBook" where
  "delete book n = (if n \<in> set (map fst book) then (True, dict_del book n) else (False, book))"

datatype book_op = Upsert Record | Delete ustring

fun apply_book_op :: "AddressBook \<Rightarrow> book_op \<Rightarrow> AddressBook" where
  "apply_book_op book (Upsert r) = add_record book r"
| "apply_book_op book (Delete n) = snd (delete book n)"

definition run_book_ops :: "AddressBook \<Rightarrow> book_op list \<Rightarrow> AddressBook" where
  "run_book_ops book ops = foldl apply_book_op book ops"

subsection \<open>Upcoming birthdays\<close>

text \<open>
  An entry of the result is the pair of the values under \<open>"name"\<close> and
  \<open>"congratulation_date"\<close>. \<open>occurrence\<close> is the candidate date of the loop body,
  \<open>upcoming_entry\<close> the whole body: \<open>None\<close> when nothing is appended.
\<close>

type_synonym entry = "ustring \<times> ustring"

definition occurrence :: "date \<Rightarrow> date \<Rightarrow> error + date" where
  "occurrence today bday = (case date_new (year today) (month bday) (day bday) of
       Inl e \<Rightarrow> Inl e
     | Inr candidate \<Rightarrow>
         if date_less candidate today then date_new (year today + 1) (month bday) (day bday)
         else Inr candidate)"

definition congratulation :: "date \<Rightarrow> error + date" where
  "congratulation candidate =
     (if weekday candidate \<ge> 5 then date_add candidate (nat (7 - weekday candidate))
      else Inr candidate)"

definition upcoming_entry :: "date \<Rightarrow> Record \<Rightarrow> error + entry option" where
  "upcoming_entry today r = (case birthday r of
       None \<Rightarrow> Inr None
     | Some bday \<Rightarrow> (case occurrence today bday of
           Inl e \<Rightarrow> Inl e
         | Inr candidate \<Rightarrow>
             (let delta_days = days_between candidate today in
              if 0 \<le> delta_days \<and> delta_days < 7 then
                (case congratulation candidate of
                   Inl e \<Rightarrow> Inl e
                 | Inr congrats \<Rightarrow> Inr (Some (name r, strftime congrats)))
              else Inr None)))"

fun upcoming_loop :: "date \<Rightarrow> entry list \<Rightarrow> Record list \<Rightarrow> error + entry list" where
  "upcoming_loop today result [] = Inr result"
| "upcoming_loop today result (r # rs) = (case upcoming_entry today r of
       Inl e \<Rightarrow> Inl e
     | Inr None \<Rightarrow> upcoming_loop today result rs
     | Inr (Some en) \<Rightarrow> upcoming_loop today (result @ [en]) rs)"

text \<open>
  \<open>sorted(result, key=...)\<close>: the keys are computed first, in order, and the first
  one that raises ends the call; the sort is stable and compares the keys only.
\<close>

fun sort_keys :: "entry list \<Rightarrow> error + ((int \<times> int \<times> int) \<times> entry) list" where
  "sort_keys [] = Inr []"
| "sort_keys (x # xs) = (case strptime (snd x) of
       Inl e \<Rightarrow> Inl e
     | Inr d \<Rightarrow> (case sort_keys xs of
           Inl e \<Rightarrow> Inl e
         | Inr kxs \<Rightarrow> Inr ((date_key d, x) # kxs)))"

definition sorted_by_date :: "entry list \<Rightarrow> error + entry list" where
  "sorted_by_date result = (case sort_keys result of
       Inl e \<Rightarrow> Inl e
     | Inr kxs \<Rightarrow> Inr (map snd (sort_key fst kxs)))"

definition get_upcoming_birthdays :: "date \<Rightarrow> AddressBook \<Rightarrow> error + entry list" where
  "get_upcoming_birthdays today book = (case upcoming_loop today [] (map snd book) of
       Inl e \<Rightarrow> Inl e
     | Inr result \<Rightarrow> sorted_by_date result)"

section \<open>Invariants\<close>



text \<open>Every key of the store is the name of the record under it.\<close>

definition keys_match :: "AddressBook \<Rightarrow> bool" where
  "keys_match book = list_all (\<lambda>kr. fst kr = name (snd kr)) book"

text \<open>The number of days by which a birthday on a Saturday or a Sunday is moved.\<close>

definition shift_days :: "date \<Rightarrow> nat" where
  "shift_days c = (if weekday c = 5 then 2 else if weekday c = 6 then 1 else 0)"

text \<open>The texts of the form \<open>DD.MM.YYYY\<close>: two of the digits 0 to 9, a dot, two
  digits, a dot and four digits.\<close>

definition ascii_digit :: "int \<Rightarrow> bool" where
  "ascii_digit c = (48 \<le> c \<and> c \<le> 57)"

definition ddmmyyyy :: "ustring \<Rightarrow> bool" where
  "ddmmyyyy s = (case s of
       [a, b, p, c, e, q, f, g, h, i] \<Rightarrow>
         ascii_digit a \<and> ascii_digit b \<and> p = dot \<and>
         ascii_digit c \<and> ascii_digit e \<and> q = dot \<and>
         ascii_digit f \<and> ascii_digit g \<and> ascii_digit h \<and> ascii_digit i
     | _ \<Rightarrow> False)"

text \<open>
  The entries that the loop of \<open>get_upcoming_birthdays\<close> appends, in the order of the
  records, and the key under which \<open>sorted\<close> compares an entry.
\<close>

definition entries_of :: "date \<Rightarrow> Record list \<Rightarrow> entry list" where
  "entries_of today rs =
     concat (map (\<lambda>r. case upcoming_entry today r of Inr (Some en) \<Rightarrow> [en] | _ \<Rightarrow> []) rs)"

definition entry_key :: "entry \<Rightarrow> int \<times> int \<times> int" where
  "entry_key x = (case strptime (snd x) of Inr d \<Rightarrow> date_key d | Inl e \<Rightarrow> (0, 0, 0))"

definition in_window :: "date \<Rightarrow> date \<Rightarrow> bool" where
  "in_window today occ = (0 \<le> days_between occ today \<and> days_between occ today < 7)"

section \<open>An example store\<close>

text \<open>Monday 10 June 2024 and four contacts: the birthdays of Ann and Di fall on the
  Sunday and the Saturday of that week, Bo's seven days after the Monday, Cy's on it.\<close>

definition monday :: date where
  "monday = \<lparr>year = 2024, month = 6, day = 10\<rparr>"

definition ann :: Record where
  "ann = \<lparr>name = ustr ''Ann'', phones = [ustr ''0931234567''],
     birthday = Some \<lparr>year = 1990, month = 6, day = 16\<rparr>\<rparr>"

definition bo :: Record where
  "bo = \<lparr>name = ustr ''Bo'', phones = [], birthday = Some \<lparr>year = 1991, month = 6, day = 17\<rparr>\<rparr>"

definition cy :: Record where
  "cy = \<lparr>name = ustr ''Cy'', phones = [], birthday = Some \<lparr>year = 1992, month = 6, day = 10\<rparr>\<rparr>"

definition di :: Record where
  "di = \<lparr>name = ustr ''Di'', phones = [], birthday = Some \<lparr>year = 1993, month = 6, day = 15\<rparr>\<rparr>"

definition fe :: Record where
  "fe = \<lparr>name = ustr ''Fe'', phones = [], birthday = Some \<lparr>year = 2000, month = 2, day = 29\<rparr>\<rparr>"

definition example_book :: AddressBook where
  "example_book = run_book_ops [] [Upsert di, Upsert bo, Upsert cy, Upsert ann]"

section \<open>Properties\<close>

subsection \<open>Phones of a record\<close>













lemma edit_phone_invalid: "Phone new = Inl e \<Longrightarrow> edit_phone r old new = (Inl e, r)"
  by (simp add: edit_phone_def)

lemma edit_phone_loop_not_found:
  "old \<notin> set rest \<Longrightarrow> edit_phone_loop old q ps i rest = (False, ps)"
  by (induction rest arbitrary: i) auto

lemma edit_phone_not_found:
  "Phone new = Inr q \<Longrightarrow> re_sub_non_digits old \<notin> set (phones r) \<Longrightarrow>
   edit_phone r old new = (Inr False, r)"
  by (simp add: edit_phone_def edit_phone_loop_not_found)

lemma edit_phone_loop_found:
  "old \<in> set rest \<Longrightarrow>
   edit_phone_loop old q ps i rest =
     (True, if q \<in> set ps then pop ps (i + length (takeWhile (\<lambda>p. p \<noteq> old) rest))
            else ps[i + length (takeWhile (\<lambda>p. p \<noteq> old) rest) := q])"
  by (induction rest arbitrary: i) (auto simp: list_ex_iff)

lemma edit_phone_found:
  assumes "Phone new = Inr q" "re_sub_non_digits old \<in> set (phones r)"
  shows "edit_phone r old new =
     (Inr True, r\<lparr>phones :=
        if q \<in> set (phones r)
        then pop (phones r) (length (takeWhile (\<lambda>p. p \<noteq> re_sub_non_digits old) (phones r)))
        else (phones r)[length (takeWhile (\<lambda>p. p \<noteq> re_sub_non_digits old) (phones r)) := q]\<rparr>)"
  using assms edit_phone_loop_found[of "re_sub_non_digits old" "phones r" q "phones r" 0]
  by (simp add: edit_phone_def)

text \<open>
  C1. \<open>edit_phone\<close> validates the new phone first, reports a missing old phone without a
  change, removes the matched entry when the new digits stand in another entry and
  otherwise replaces the matched entry where it stands. The test of line 96 runs over
  the whole list, the matched entry included: when the old and the new text have the
  same digits, the matched entry is removed, not replaced, and the phone is lost.
\<close>

theorem edit_phone_same_digits_removes:
  "edit_phone \<lparr>name = ustr ''Ann'', phones = [ustr ''0931234567''], birthday = None\<rparr>
     (ustr ''0931234567'') (ustr ''093-123-45-67'') =
   (Inr True, \<lparr>name = ustr ''Ann'', phones = [], birthday = None\<rparr>)"
  by code_simp



text \<open>A phone written in the digits of another script is stored as it is written; a
  character that is no decimal digit is dropped.\<close>

lemma phone_of_other_digits:
  "Phone ([1632, 1641, 1635] @ ustr ''-'' @ [1633, 1634, 1635, 1636, 1637, 1638, 1639]) =
     Inr [1632, 1641, 1635, 1633, 1634, 1635, 1636, 1637, 1638, 1639]"
  by code_simp

subsection \<open>Birthday of a record\<close>

lemma Birthday_not_future: "Birthday today v = Inr d \<Longrightarrow> \<not> date_less today d"
  by (auto simp: Birthday_def split: sum.splits pyvalue.splits if_splits)

text \<open>
  C5. On a record that has a birthday, \<open>add_birthday\<close> raises the error of the second
  assignment, whatever the argument, and leaves the record as it was; on a record without
  one it validates the argument with \<open>Birthday\<close>, passes the error on and stores nothing
  when that fails, and stores the validated date, which is not after today, when it
  succeeds. A call after a successful call fails and leaves the stored birthday.
\<close>

theorem add_birthday_once:
  "(birthday r \<noteq> None \<longrightarrow>
      add_birthday today r v = (Inl (ValueError ''Birthday is already set for this contact''), r)) \<and>
   (birthday r = None \<longrightarrow>
      (case Birthday today v of
         Inl e \<Rightarrow> add_birthday today r v = (Inl e, r)
       | Inr d \<Rightarrow> add_birthday today r v = (Inr (), r\<lparr>birthday := Some d\<rparr>) \<and>
           \<not> date_less today d)) \<and>
   (add_birthday today r v = (Inr (), r') \<longrightarrow>
      add_birthday today' r' v' =
        (Inl (ValueError ''Birthday is already set for this contact''), r'))"
  by (auto simp: add_birthday_def Birthday_not_future split: sum.splits if_splits)

theorem add_birthday_once_witness:
  "add_birthday \<lparr>year = 2024, month = 6, day = 10\<rparr>
     \<lparr>name = ustr ''Ann'', phones = [], birthday = None\<rparr> (PyStr (ustr ''15.08.1992'')) =
     (Inr (), \<lparr>name = ustr ''Ann'', phones = [], birthday = Some \<lparr>year = 1992, month = 8, day = 15\<rparr>\<rparr>) \<and>
   add_birthday \<lparr>year = 2024, month = 6, day = 11\<rparr>
     \<lparr>name = ustr ''Ann'', phones = [], birthday = Some \<lparr>year = 1992, month = 8, day = 15\<rparr>\<rparr>
     (PyStr (ustr ''01.01.2000'')) =
     (Inl (ValueError ''Birthday is already set for this contact''),
      \<lparr>name = ustr ''Ann'', phones = [], birthday = Some \<lparr>year = 1992, month = 8, day = 15\<rparr>\<rparr>) \<and>
   add_birthday \<lparr>year = 2024, month = 6, day = 10\<rparr>
     \<lparr>name = ustr ''Ann'', phones = [], birthday = None\<rparr> (PyStr (ustr ''31.04.1992'')) =
     (Inl (ValueError ''Invalid date format. Use DD.MM.YYYY''),
      \<lparr>name = ustr ''Ann'', phones = [], birthday = None\<rparr>)"
proof -
  have a: "add_birthday \<lparr>year = 2024, month = 6, day = 10\<rparr>
     \<lparr>name = ustr ''Ann'', phones = [], birthday = None\<rparr> (PyStr (ustr ''15.08.1992'')) =
     (Inr (), \<lparr>name = ustr ''Ann'', phones = [], birthday = Some \<lparr>year = 1992, month = 8, day = 15\<rparr>\<rparr>)"
    by code_simp
  have b: "Birthday \<lparr>year = 2024, month = 6, day = 10\<rparr> (PyStr (ustr ''31.04.1992'')) =
     Inl (ValueError ''Invalid date format. Use DD.MM.YYYY'')"
    by code_simp
  have c: "birthday \<lparr>name = ustr ''Ann'', phones = [], birthday = None\<rparr> = None" by simp
  note t1 = add_birthday_once[of "\<lparr>name = ustr ''Ann'', phones = [], birthday = None\<rparr>"
      "\<lparr>year = 2024, month = 6, day = 10\<rparr>" "PyStr (ustr ''15.08.1992'')"
      "\<lparr>name = ustr ''Ann'', phones = [], birthday = Some \<lparr>year = 1992, month = 8, day = 15\<rparr>\<rparr>"
      "\<lparr>year = 2024, month = 6, day = 11\<rparr>" "PyStr (ustr ''01.01.2000'')"]
  note t2 = add_birthday_once[of "\<lparr>name = ustr ''Ann'', phones = [], birthday = None\<rparr>"
      "\<lparr>year = 2024, month = 6, day = 10\<rparr>" "PyStr (ustr ''31.04.1992'')"]
  from t1 a have s: "add_birthday \<lparr>year = 2024, month = 6, day = 11\<rparr>
     \<lparr>name = ustr ''Ann'', phones = [], birthday = Some \<lparr>year = 1992, month = 8, day = 15\<rparr>\<rparr>
     (PyStr (ustr ''01.01.2000'')) =
     (Inl (ValueError ''Birthday is already set for this contact''),
      \<lparr>name = ustr ''Ann'', phones = [], birthday = Some \<lparr>year = 1992, month = 8, day = 15\<rparr>\<rparr>)"
    by blast
  from t2 b c have f: "add_birthday \<lparr>year = 2024, month = 6, day = 10\<rparr>
     \<lparr>name = ustr ''Ann'', phones = [], birthday = None\<rparr> (PyStr (ustr ''31.04.1992'')) =
     (Inl (ValueError ''Invalid date format. Use DD.MM.YYYY''),
      \<lparr>name = ustr ''Ann'', phones = [], birthday = None\<rparr>)"
    by simp
  from a s f show ?thesis by blast
qed

subsection \<open>The store\<close>

lemma map_of_dict_set: "map_of (dict_set kvs k v) = (map_of kvs)(k \<mapsto> v)"
  by (induction kvs k v rule: dict_set.induct) auto

lemma keys_dict_set: "k \<in> set (map fst kvs) \<Longrightarrow> map fst (dict_set kvs k v) = map fst kvs"
  by (induction kvs k v rule: dict_set.induct) auto

lemma keys_dict_set_new: "k \<notin> set (map fst kvs) \<Longrightarrow> dict_set kvs k v = kvs @ [(k, v)]"
  by (induction kvs k v rule: dict_set.induct) auto

lemma set_dict_set: "set (dict_set kvs k v) \<subseteq> insert (k, v) (set kvs)"
  by (induction kvs k v rule: dict_set.induct) auto

lemma keys_of_dict_set: "fst ` set (dict_set kvs k v) = insert k (fst ` set kvs)"
  by (induction kvs k v rule: dict_set.induct) auto

lemma distinct_dict_set: "distinct (map fst kvs) \<Longrightarrow> distinct (map fst (dict_set kvs k v))"
  by (induction kvs k v rule: dict_set.induct) (auto simp: keys_of_dict_set)

lemma keys_match_add_record: "keys_match book \<Longrightarrow> keys_match (add_record book r)"
  using set_dict_set[of book "name r" r] by (auto simp: keys_match_def add_record_def list_all_iff)

lemma keys_match_delete: "keys_match book \<Longrightarrow> keys_match (snd (delete book n))"
  by (auto simp: keys_match_def delete_def dict_del_def list_all_iff)

lemma keys_match_apply: "keys_match book \<Longrightarrow> keys_match (apply_book_op book op)"
  by (cases op) (simp_all add: keys_match_add_record keys_match_delete)

lemma keys_match_run: "keys_match book \<Longrightarrow> keys_match (run_book_ops book ops)"
  unfolding run_book_ops_def by (induction ops arbitrary: book) (simp_all add: keys_match_apply)

text \<open>
  C7. After every sequence of \<open>add_record\<close> and \<open>delete\<close>, each key of the store is
  the name of the record it maps to; \<open>add_record\<close> puts the record under its name, in
  the place of the entry that was there, and no other key changes its record.
\<close>

theorem store_keys_and_upsert:
  "keys_match (run_book_ops [] ops) \<and>
   (keys_match book \<longrightarrow> keys_match (run_book_ops book ops)) \<and>
   (\<forall>kr \<in> set (run_book_ops [] ops). fst kr = name (snd kr)) \<and>
   find_record (add_record book r) (name r) = Some r \<and>
   (\<forall>k. k \<noteq> name r \<longrightarrow> find_record (add_record book r) k = find_record book k) \<and>
   (name r \<in> set (map fst book) \<longrightarrow> map fst (add_record book r) = map fst book)"
proof -
  have e: "keys_match []" by (simp add: keys_match_def)
  have a: "keys_match (run_book_ops [] ops)" using e by (rule keys_match_run)
  then have b: "\<forall>kr \<in> set (run_book_ops [] ops). fst kr = name (snd kr)"
    by (simp add: keys_match_def list_all_iff)
  show ?thesis using a b
    by (simp add: keys_match_run find_record_def add_record_def map_of_dict_set keys_dict_set)
qed

theorem store_keys_and_upsert_witness:
  "keys_match [(ustr ''Ann'', \<lparr>name = ustr ''Ann'', phones = [], birthday = None\<rparr>),
               (ustr ''Bo'', \<lparr>name = ustr ''Bo'', phones = [], birthday = None\<rparr>)] \<and>
   keys_match (run_book_ops
     [(ustr ''Ann'', \<lparr>name = ustr ''Ann'', phones = [], birthday = None\<rparr>),
      (ustr ''Bo'', \<lparr>name = ustr ''Bo'', phones = [], birthday = None\<rparr>)]
     [Upsert \<lparr>name = ustr ''Ann'', phones = [ustr ''0931234567''], birthday = None\<rparr>, Delete (ustr ''Bo''),
      Upsert \<lparr>name = ustr ''Cy'', phones = [], birthday = None\<rparr>]) \<and>
   find_record (add_record
     [(ustr ''Ann'', \<lparr>name = ustr ''Ann'', phones = [], birthday = None\<rparr>),
      (ustr ''Bo'', \<lparr>name = ustr ''Bo'', phones = [], birthday = None\<rparr>)]
     \<lparr>name = ustr ''Ann'', phones = [ustr ''0931234567''], birthday = None\<rparr>) (ustr ''Bo'') =
     Some \<lparr>name = ustr ''Bo'', phones = [], birthday = None\<rparr> \<and>
   map fst (add_record
     [(ustr ''Ann'', \<lparr>name = ustr ''Ann'', phones = [], birthday = None\<rparr>),
      (ustr ''Bo'', \<lparr>name = ustr ''Bo'', phones = [], birthday = None\<rparr>)]
     \<lparr>name = ustr ''Ann'', phones = [ustr ''0931234567''], birthday = None\<rparr>) = [ustr ''Ann'', ustr ''Bo'']"
proof -
  have k: "keys_match [(ustr ''Ann'', \<lparr>name = ustr ''Ann'', phones = [], birthday = None\<rparr>),
               (ustr ''Bo'', \<lparr>name = ustr ''Bo'', phones = [], birthday = None\<rparr>)]"
    by (simp add: keys_match_def)
  have n: "(ustr ''Bo'') \<noteq> name \<lparr>name = ustr ''Ann'', phones = [ustr ''0931234567''], birthday = None\<rparr>"
    by simp
  have m: "name \<lparr>name = ustr ''Ann'', phones = [ustr ''0931234567''], birthday = None\<rparr> \<in>
     set (map fst [(ustr ''Ann'', \<lparr>name = ustr ''Ann'', phones = [], birthday = None\<rparr>),
               (ustr ''Bo'', \<lparr>name = ustr ''Bo'', phones = [], birthday = None\<rparr>)])"
    by simp
  have f: "find_record [(ustr ''Ann'', \<lparr>name = ustr ''Ann'', phones = [], birthday = None\<rparr>),
               (ustr ''Bo'', \<lparr>name = ustr ''Bo'', phones = [], birthday = None\<rparr>)] (ustr ''Bo'') =
     Some \<lparr>name = ustr ''Bo'', phones = [], birthday = None\<rparr>"
    by (simp add: find_record_def)
  note t = store_keys_and_upsert[of
      "[Upsert \<lparr>name = ustr ''Ann'', phones = [ustr ''0931234567''], birthday = None\<rparr>, Delete (ustr ''Bo''),
        Upsert \<lparr>name = ustr ''Cy'', phones = [], birthday = None\<rparr>]"
      "[(ustr ''Ann'', \<lparr>name = ustr ''Ann'', phones = [], birthday = None\<rparr>),
        (ustr ''Bo'', \<lparr>name = ustr ''Bo'', phones = [], birthday = None\<rparr>)]"
      "\<lparr>name = ustr ''Ann'', phones = [ustr ''0931234567''], birthday = None\<rparr>"]
  from t k n m f show ?thesis by simp
qed

subsection \<open>Ordinals of dates\<close>

lemma div_step:
  fixes y k :: int
  assumes "0 < k"
  shows "y div k = (y - 1) div k + (if y mod k = 0 then 1 else 0)"
proof (cases "y mod k = 0")
  case True
  have "y - 1 = k * (y div k - 1) + (k - 1)"
    using True mult_div_mod_eq[of k y] by (simp add: algebra_simps)
  then have "(y - 1) div k = y div k - 1"
    using assms by (intro int_div_pos_eq[where r = "k - 1"]) simp_all
  then show ?thesis using True by simp
next
  case False
  have r: "0 \<le> y mod k" "y mod k < k" using assms by simp_all
  have "y - 1 = k * (y div k) + (y mod k - 1)"
    using mult_div_mod_eq[of k y] by simp
  then have "(y - 1) div k = y div k"
    using r False by (intro int_div_pos_eq[where r = "y mod k - 1"]) simp_all
  then show ?thesis using False by simp
qed

lemma mod_400_100: "(y::int) mod 400 = 0 \<Longrightarrow> y mod 100 = 0"
  using mod_mod_cancel[of 100 400 y] by simp

lemma mod_100_4: "(y::int) mod 100 = 0 \<Longrightarrow> y mod 4 = 0"
  using mod_mod_cancel[of 4 100 y] by simp

lemma leap_sum:
  fixes q4 q100 q400 y :: int
  assumes "b400 \<longrightarrow> b100" "b100 \<longrightarrow> b4"
  shows "y * 365 + (q4 + (if b4 then 1 else 0)) - (q100 + (if b100 then 1 else 0)) +
      (q400 + (if b400 then 1 else 0)) =
    (y - 1) * 365 + q4 - q100 + q400 + (if b4 \<and> (\<not> b100 \<or> b400) then 366 else 365)"
  using assms by (cases b4; cases b100; cases b400) (simp_all add: algebra_simps)

lemma days_before_year_Suc:
  "days_before_year (y + 1) = days_before_year y + (if is_leap y then 366 else 365)"
proof -
  have a: "y div 4 = (y - 1) div 4 + (if y mod 4 = 0 then 1 else 0)" by (rule div_step) simp
  have b: "y div 100 = (y - 1) div 100 + (if y mod 100 = 0 then 1 else 0)" by (rule div_step) simp
  have c: "y div 400 = (y - 1) div 400 + (if y mod 400 = 0 then 1 else 0)" by (rule div_step) simp
  have "days_before_year (y + 1) = y * 365 + y div 4 - y div 100 + y div 400"
    by (simp add: days_before_year_def)
  also have "\<dots> = y * 365 + ((y - 1) div 4 + (if y mod 4 = 0 then 1 else 0))
      - ((y - 1) div 100 + (if y mod 100 = 0 then 1 else 0))
      + ((y - 1) div 400 + (if y mod 400 = 0 then 1 else 0))"
    by (simp only: a [symmetric] b [symmetric] c [symmetric])
  also have "\<dots> = (y - 1) * 365 + (y - 1) div 4 - (y - 1) div 100 + (y - 1) div 400 +
      (if y mod 4 = 0 \<and> (\<not> y mod 100 = 0 \<or> y mod 400 = 0) then 366 else 365)"
    by (rule leap_sum) (use mod_400_100[of y] mod_100_4[of y] in blast)+
  also have "\<dots> = days_before_year y + (if is_leap y then 366 else 365)"
    by (simp only: days_before_year_def is_leap_def Let_def)
  finally show ?thesis .
qed

lemma days_before_year_mono_step: "days_before_year y \<le> days_before_year (y + 1)"
  by (simp add: days_before_year_Suc)

lemma days_before_year_mono: "y \<le> z \<Longrightarrow> days_before_year y \<le> days_before_year z"
proof (induction z rule: int_ge_induct)
  case base
  then show ?case by simp
next
  case (step i)
  then show ?case using days_before_year_mono_step[of i] by simp
qed

lemma days_before_year_le: "y \<le> 9999 \<Longrightarrow> days_before_year (y + 1) \<le> 3652059"
proof -
  assume "y \<le> 9999"
  then have "days_before_year (y + 1) \<le> days_before_year 10000"
    by (intro days_before_year_mono) simp
  also have "days_before_year 10000 = 3652059" by (simp add: days_before_year_def)
  finally show ?thesis .
qed

lemma month_cases:
  "1 \<le> (m::int) \<Longrightarrow> m \<le> 12 \<Longrightarrow>
   m = 1 \<or> m = 2 \<or> m = 3 \<or> m = 4 \<or> m = 5 \<or> m = 6 \<or> m = 7 \<or> m = 8 \<or> m = 9 \<or> m = 10 \<or> m = 11 \<or> m = 12"
  by arith

lemma days_before_month_Suc:
  "1 \<le> m \<Longrightarrow> m < 12 \<Longrightarrow>
   days_before_month y (m + 1) = days_before_month y m + days_in_month y m"
  using month_cases[of m]
  by (auto simp: days_before_month_def days_in_month_def DAYS_BEFORE_MONTH_def DAYS_IN_MONTH_def)

lemma days_before_month_1: "days_before_month y 1 = 0"
  by (simp add: days_before_month_def DAYS_BEFORE_MONTH_def)

lemma days_in_year:
  "days_before_month y 12 + days_in_month y 12 = (if is_leap y then 366 else 365)"
  by (simp add: days_before_month_def days_in_month_def DAYS_BEFORE_MONTH_def DAYS_IN_MONTH_def)

lemma toordinal_next_day:
  assumes "valid_date d"
  shows "toordinal (next_day d) = toordinal d + 1"
proof -
  have m: "1 \<le> month d" "month d \<le> 12" and dd: "day d \<le> days_in_month (year d) (month d)"
    using assms by (simp_all add: valid_date_def)
  show ?thesis
  proof (cases "day d < days_in_month (year d) (month d)")
    case True
    then show ?thesis by (simp add: next_day_def toordinal_def)
  next
    case False
    then have e: "day d = days_in_month (year d) (month d)" using dd by simp
    show ?thesis
    proof (cases "month d < 12")
      case True
      then show ?thesis using False e m days_before_month_Suc[of "month d" "year d"]
        by (simp add: next_day_def toordinal_def)
    next
      case False
      then have "month d = 12" using m by simp
      then show ?thesis using e days_in_year[of "year d"] days_before_year_Suc[of "year d"]
        by (simp add: next_day_def toordinal_def days_before_month_1)
    qed
  qed
qed

lemma days_in_month_pos: "1 \<le> m \<Longrightarrow> m \<le> 12 \<Longrightarrow> 28 \<le> days_in_month y m"
  using month_cases[of m] by (auto simp: days_in_month_def DAYS_IN_MONTH_def)

lemma toordinal_last_day: "toordinal \<lparr>year = 9999, month = 12, day = 31\<rparr> = MAXORDINAL"
  by (simp add: toordinal_def days_before_year_def days_before_month_def DAYS_BEFORE_MONTH_def
      is_leap_def MAXORDINAL_def)

lemma valid_next_day:
  assumes "valid_date d" "toordinal d < MAXORDINAL"
  shows "valid_date (next_day d)"
proof -
  have m: "1 \<le> month d" "month d \<le> 12" and dd: "1 \<le> day d" "day d \<le> days_in_month (year d) (month d)"
    and y: "1 \<le> year d" "year d \<le> 9999"
    using assms by (simp_all add: valid_date_def MINYEAR_def MAXYEAR_def)
  show ?thesis
  proof (cases "day d < days_in_month (year d) (month d)")
    case True
    then show ?thesis using assms(1) by (simp add: next_day_def valid_date_def)
  next
    case False
    then have e: "day d = days_in_month (year d) (month d)" using dd by simp
    show ?thesis
    proof (cases "month d < 12")
      case True
      then show ?thesis using False m y days_in_month_pos[of "month d + 1" "year d"]
        by (simp add: next_day_def valid_date_def MINYEAR_def MAXYEAR_def)
    next
      case False
      then have m12: "month d = 12" using m by simp
      then have d31: "day d = 31" using e by (simp add: days_in_month_def DAYS_IN_MONTH_def)
      have "year d \<noteq> 9999"
      proof
        assume "year d = 9999"
        then have "d = \<lparr>year = 9999, month = 12, day = 31\<rparr>" using m12 d31 by simp
        then show False using assms(2) toordinal_last_day by simp
      qed
      then show ?thesis using e y m12 d31
        by (simp add: next_day_def valid_date_def MINYEAR_def MAXYEAR_def days_in_month_def DAYS_IN_MONTH_def)
    qed
  qed
qed

lemma add_days_ok:
  "valid_date d \<Longrightarrow> toordinal d + int n \<le> MAXORDINAL \<Longrightarrow>
   valid_date (add_days d n) \<and> toordinal (add_days d n) = toordinal d + int n"
proof (induction n arbitrary: d)
  case 0
  then show ?case by simp
next
  case (Suc n)
  have v: "valid_date (next_day d)" using Suc.prems by (intro valid_next_day) simp_all
  have t: "toordinal (next_day d) = toordinal d + 1" using Suc.prems(1) by (rule toordinal_next_day)
  from Suc.IH[OF v] t Suc.prems(2) show ?case by simp
qed

lemma weekday_range: "0 \<le> weekday d \<and> weekday d < 7"
  by (simp add: weekday_def)

lemma toordinal_le_MAXORDINAL:
  assumes "valid_date d"
  shows "toordinal d \<le> MAXORDINAL"
proof -
  have m: "1 \<le> month d" "month d \<le> 12" and dd: "day d \<le> days_in_month (year d) (month d)"
    and y: "year d \<le> 9999"
    using assms by (simp_all add: valid_date_def MAXYEAR_def)
  have "days_before_month (year d) (month d) + days_in_month (year d) (month d)
      \<le> (if is_leap (year d) then 366 else 365)"
    using month_cases[OF m]
    by (auto simp: days_before_month_def days_in_month_def DAYS_BEFORE_MONTH_def DAYS_IN_MONTH_def)
  then have "toordinal d \<le> days_before_year (year d + 1)"
    using dd by (simp add: toordinal_def days_before_year_Suc)
  then show ?thesis using days_before_year_le[OF y] by (simp add: MAXORDINAL_def)
qed

subsection \<open>Occurrence and congratulation date\<close>

lemma date_new_Inr:
  "date_new y m d = Inr x \<Longrightarrow> valid_date x \<and> year x = y \<and> month x = m \<and> day x = d"
  by (auto simp: date_new_def valid_date_def split: if_splits)

lemma date_new_valid: "valid_date d \<Longrightarrow> date_new (year d) (month d) (day d) = Inr d"
  by (simp add: date_new_def valid_date_def)

lemma date_new_error: "date_new y m d = Inl e \<Longrightarrow> \<exists>msg. e = ValueError msg"
  by (auto simp: date_new_def split: if_splits)

lemma occurrence_Inr:
  assumes "occurrence today b = Inr occ"
  shows "valid_date occ \<and> month occ = month b \<and> day occ = day b \<and>
    year occ = (if date_less \<lparr>year = year today, month = month b, day = day b\<rparr> today
                then year today + 1 else year today)"
proof (cases "date_new (year today) (month b) (day b)")
  case (Inl e)
  then show ?thesis using assms by (simp add: occurrence_def)
next
  case (Inr c)
  from date_new_Inr[OF Inr] have c: "c = \<lparr>year = year today, month = month b, day = day b\<rparr>"
    and vc: "valid_date c" by simp_all
  show ?thesis
  proof (cases "date_less c today")
    case True
    then have "date_new (year today + 1) (month b) (day b) = Inr occ"
      using assms Inr by (simp add: occurrence_def)
    from date_new_Inr[OF this] True c show ?thesis by simp
  next
    case False
    then have "occ = c" using assms Inr by (simp add: occurrence_def)
    then show ?thesis using False c vc by simp
  qed
qed

lemma occurrence_error: "occurrence today b = Inl e \<Longrightarrow> \<exists>msg. e = ValueError msg"
  by (auto simp: occurrence_def split: sum.splits if_splits dest: date_new_error)

lemma weekend_fits:
  fixes t M :: int
  shows "t \<le> M \<Longrightarrow> (M + 6) mod 7 = 4 \<Longrightarrow> 5 \<le> (t + 6) mod 7 \<Longrightarrow> t + (7 - (t + 6) mod 7) \<le> M"
  by presburger

lemma weekend_no_overflow:
  "t \<le> (3652059::int) \<Longrightarrow> 5 \<le> (t + 6) mod 7 \<Longrightarrow> t + (7 - (t + 6) mod 7) \<le> 3652059"
  by (rule weekend_fits) simp_all

lemma mod7_sat: "(x::int) mod 7 = 5 \<Longrightarrow> (x + 2) mod 7 = 0"
  by presburger

lemma mod7_sun: "(x::int) mod 7 = 6 \<Longrightarrow> (x + 1) mod 7 = 0"
  by presburger

lemma congratulation_total:
  assumes "valid_date c"
  shows "congratulation c = Inr (add_days c (shift_days c))"
proof (cases "5 \<le> weekday c")
  case False
  then show ?thesis by (simp add: congratulation_def shift_days_def)
next
  case True
  have r: "weekday c < 7" using weekday_range by simp
  have n: "nat (7 - weekday c) = shift_days c" using True r by (auto simp: shift_days_def)
  have "toordinal c + (7 - weekday c) \<le> MAXORDINAL"
    using toordinal_le_MAXORDINAL[OF assms] True weekend_no_overflow[of "toordinal c"]
    by (simp add: weekday_def MAXORDINAL_def)
  then have "\<not> toordinal c + int (nat (7 - weekday c)) > MAXORDINAL" using r by simp
  then show ?thesis using True n by (simp add: congratulation_def date_add_def)
qed

lemma congratulation_weekday:
  assumes "valid_date c"
  shows "valid_date (add_days c (shift_days c)) \<and>
    toordinal (add_days c (shift_days c)) = toordinal c + int (shift_days c) \<and>
    weekday (add_days c (shift_days c)) = (if 5 \<le> weekday c then 0 else weekday c)"
proof -
  have le: "toordinal c + int (shift_days c) \<le> MAXORDINAL"
  proof (cases "5 \<le> weekday c")
    case False
    then show ?thesis using toordinal_le_MAXORDINAL[OF assms] by (simp add: shift_days_def)
  next
    case True
    have r: "weekday c < 7" using weekday_range by simp
    have "int (shift_days c) = 7 - weekday c" using True r by (auto simp: shift_days_def)
    then show ?thesis
      using toordinal_le_MAXORDINAL[OF assms] True weekend_no_overflow[of "toordinal c"]
      by (simp add: weekday_def MAXORDINAL_def)
  qed
  from add_days_ok[OF assms le] have v: "valid_date (add_days c (shift_days c))"
    and t: "toordinal (add_days c (shift_days c)) = toordinal c + int (shift_days c)" by simp_all
  have r: "weekday c < 7" using weekday_range by simp
  have "weekday (add_days c (shift_days c)) = (if 5 \<le> weekday c then 0 else weekday c)"
  proof (cases "weekday c = 5")
    case True
    then have "shift_days c = 2" by (simp add: shift_days_def)
    then show ?thesis using True t mod7_sat[of "toordinal c + 6"]
      by (simp add: weekday_def add.commute add.left_commute)
  next
    case n5: False
    show ?thesis
    proof (cases "weekday c = 6")
      case True
      then have "shift_days c = 1" by (simp add: shift_days_def)
      then show ?thesis using True t mod7_sun[of "toordinal c + 6"]
        by (simp add: weekday_def add.commute add.left_commute)
    next
      case False
      then have "shift_days c = 0" using n5 by (simp add: shift_days_def)
      then show ?thesis using False n5 r by simp
    qed
  qed
  then show ?thesis using v t by simp
qed

subsection \<open>Formatting and parsing\<close>

lemma digit_cases:
  "0 \<le> (v::int) \<Longrightarrow> v \<le> 9 \<Longrightarrow> v \<in> {0, 1, 2, 3, 4, 5, 6, 7, 8, 9}"
  by simp arith

lemma ND_STARTS_head: "\<exists>t. ND_STARTS = 48 # t"
  by (simp add: ND_STARTS_def)

lemma ascii_is_digit:
  assumes "ascii_digit c"
  shows "is_digit c"
proof -
  obtain t where t: "ND_STARTS = 48 # t" using ND_STARTS_head by blast
  show ?thesis unfolding is_digit_def t using assms by (simp add: ascii_digit_def in_run_def)
qed

lemma ascii_digit_val:
  assumes "ascii_digit c"
  shows "digit_val c = c - 48"
proof -
  obtain t where t: "ND_STARTS = 48 # t" using ND_STARTS_head by blast
  show ?thesis unfolding digit_val_def t using assms by (simp add: ascii_digit_def in_run_def)
qed

lemma digit_val_range: "ascii_digit c \<Longrightarrow> 0 \<le> digit_val c \<and> digit_val c \<le> 9"
  by (simp add: ascii_digit_val) (simp add: ascii_digit_def)

lemma digit_char_val: "ascii_digit c \<Longrightarrow> digit_char (digit_val c) = c"
  by (simp add: ascii_digit_val digit_char_def)

lemma ascii_digit_char: "0 \<le> n \<Longrightarrow> n \<le> 9 \<Longrightarrow> ascii_digit (digit_char n)"
  by (simp add: ascii_digit_def digit_char_def)

lemma digit_val_char: "0 \<le> n \<Longrightarrow> n \<le> 9 \<Longrightarrow> digit_val (digit_char n) = n"
  using ascii_digit_val[OF ascii_digit_char] by (simp add: digit_char_def)

lemma ascii_not_space: "ascii_digit c \<Longrightarrow> \<not> is_space c"
  by (auto simp: ascii_digit_def is_space_def WHITESPACE_def)

lemma ascii_not_dot: "ascii_digit c \<Longrightarrow> c \<noteq> dot"
  by (auto simp: ascii_digit_def)

lemma one_of_digit_char:
  assumes "0 \<le> n" "n \<le> 9"
  shows "one_of (ustr ''123456789'') (digit_char n) \<longleftrightarrow> 1 \<le> n"
    and "one_of (ustr ''01'') (digit_char n) \<longleftrightarrow> n \<le> 1"
    and "one_of (ustr ''012'') (digit_char n) \<longleftrightarrow> n \<le> 2"
    and "one_of (ustr ''12'') (digit_char n) \<longleftrightarrow> n = 1 \<or> n = 2"
    and "one_of (ustr ''3'') (digit_char n) \<longleftrightarrow> n = 3"
    and "one_of (ustr ''0'') (digit_char n) \<longleftrightarrow> n = 0"
    and "one_of (ustr ''1'') (digit_char n) \<longleftrightarrow> n = 1"
  using digit_cases[OF assms] by (auto simp: digit_char_def one_of_def)

lemma strip_id:
  assumes "s \<noteq> []" "\<not> is_space (hd s)" "\<not> is_space (last s)"
  shows "strip s = s"
proof -
  have a: "dropWhile is_space s = s" using assms by (simp add: dropWhile_eq_self_iff)
  have "dropWhile is_space (rev s) = rev s"
    using assms by (simp add: dropWhile_eq_self_iff hd_rev)
  then show ?thesis by (simp add: strip_def a)
qed

lemma py_int_2:
  assumes "ascii_digit a" "ascii_digit b"
  shows "py_int [a, b] = 10 * digit_val a + digit_val b"
proof -
  have "strip [a, b] = [a, b]" using assms by (intro strip_id) (simp_all add: ascii_not_space)
  then show ?thesis by (simp add: py_int_def)
qed

lemma py_int_4:
  assumes "ascii_digit a" "ascii_digit b" "ascii_digit c" "ascii_digit d"
  shows "py_int [a, b, c, d] = 1000 * digit_val a + 100 * digit_val b + 10 * digit_val c + digit_val d"
proof -
  have "strip [a, b, c, d] = [a, b, c, d]"
    using assms by (intro strip_id) (simp_all add: ascii_not_space)
  then show ?thesis by (simp add: py_int_def)
qed

lemma div_mod_10:
  fixes a b :: int
  assumes "0 \<le> b" "b \<le> 9"
  shows "(10 * a + b) div 10 = a" "(10 * a + b) mod 10 = b"
  using assms by simp_all

lemma pad2_digits:
  assumes "ascii_digit a" "ascii_digit b"
  shows "pad2 (10 * digit_val a + digit_val b) = [a, b]"
proof -
  note ra = digit_val_range[OF assms(1)] and rb = digit_val_range[OF assms(2)]
  have "(10 * digit_val a + digit_val b) div 10 = digit_val a"
    "(10 * digit_val a + digit_val b) mod 10 = digit_val b"
    using rb by (simp_all add: div_mod_10)
  then show ?thesis using ra assms by (simp add: pad2_def digit_char_val)
qed

lemma decimal_digit: "n < 10 \<Longrightarrow> decimal n = [48 + n]"
  by (subst decimal.simps) simp

lemma decimal_step: "10 \<le> n \<Longrightarrow> decimal n = decimal (n div 10) @ [48 + n mod 10]"
  by (subst decimal.simps) simp

lemma decimal_4:
  assumes "1000 \<le> n" "n < 10000"
  shows "decimal n = [digit_char (n div 1000), digit_char (n div 100 mod 10),
    digit_char (n div 10 mod 10), digit_char (n mod 10)]"
proof -
  have e2: "n div 10 div 10 = n div 100" and e3: "n div 100 div 10 = n div 1000"
    by (simp_all add: div_mult2_eq [symmetric])
  have 1: "10 \<le> n" and 2: "10 \<le> n div 10" and 3: "10 \<le> n div 100" and 4: "n div 1000 < 10"
    using assms by simp_all
  have "decimal n = decimal (n div 10) @ [48 + n mod 10]" by (rule decimal_step[OF 1])
  also have "decimal (n div 10) = decimal (n div 100) @ [48 + n div 10 mod 10]"
    using decimal_step[OF 2] by (simp only: e2)
  also have "decimal (n div 100) = decimal (n div 1000) @ [48 + n div 100 mod 10]"
    using decimal_step[OF 3] by (simp only: e3)
  also have "decimal (n div 1000) = [48 + n div 1000]" by (rule decimal_digit[OF 4])
  finally show ?thesis by (simp add: digit_char_def)
qed

lemma decimal_short:
  assumes "n < 1000"
  shows "length (decimal n) \<le> 3"
proof (cases "n < 10")
  case True
  then show ?thesis by (simp add: decimal_digit)
next
  case False
  then have 1: "10 \<le> n" by simp
  show ?thesis
  proof (cases "n < 100")
    case True
    then have "n div 10 < 10" by simp
    then show ?thesis by (simp add: decimal_step[OF 1] decimal_digit)
  next
    case False
    then have 2: "10 \<le> n div 10" by simp
    have e2: "n div 10 div 10 = n div 100" by (simp add: div_mult2_eq [symmetric])
    have "n div 100 < 10" using assms by simp
    then show ?thesis by (simp add: decimal_step[OF 1] decimal_step[OF 2] e2 decimal_digit)
  qed
qed

lemma decimal_digits:
  assumes "ascii_digit a" "ascii_digit b" "ascii_digit c" "ascii_digit d"
    and "1000 \<le> 1000 * digit_val a + 100 * digit_val b + 10 * digit_val c + digit_val d"
  shows "decimal (1000 * digit_val a + 100 * digit_val b + 10 * digit_val c + digit_val d) = [a, b, c, d]"
proof -
  define n where "n = 1000 * digit_val a + 100 * digit_val b + 10 * digit_val c + digit_val d"
  note ra = digit_val_range[OF assms(1)] and rb = digit_val_range[OF assms(2)]
    and rc = digit_val_range[OF assms(3)] and rd = digit_val_range[OF assms(4)]
  have lo: "1000 \<le> n" using assms(5) by (simp add: n_def)
  have hi: "n < 10000" using ra rb rc rd by (simp add: n_def)
  have n1: "n = 10 * (100 * digit_val a + 10 * digit_val b + digit_val c) + digit_val d"
    by (simp add: n_def)
  have m1: "n mod 10 = digit_val d" and d1: "n div 10 = 100 * digit_val a + 10 * digit_val b + digit_val c"
    unfolding n1 using rd by (simp_all only: div_mod_10)
  have n2: "n div 10 = 10 * (10 * digit_val a + digit_val b) + digit_val c" by (simp add: d1)
  have m2: "n div 10 mod 10 = digit_val c" and d2: "n div 10 div 10 = 10 * digit_val a + digit_val b"
    unfolding n2 using rc by (simp_all only: div_mod_10)
  have m3: "n div 10 div 10 mod 10 = digit_val b" and d3: "n div 10 div 10 div 10 = digit_val a"
    unfolding d2 using rb by (simp_all only: div_mod_10)
  have e2: "n div 100 = n div 10 div 10" and e3: "n div 1000 = n div 10 div 10 div 10"
    by (simp_all add: div_mult2_eq [symmetric])
  have "n div 1000 = digit_val a" by (simp add: e3 d3)
  moreover have "n div 100 mod 10 = digit_val b" by (simp add: e2 m3)
  ultimately show ?thesis
    using assms(1-4) m1 m2 decimal_4[OF lo hi] by (simp add: n_def [symmetric] digit_char_val)
qed

lemma in_alt1: "(t, r) \<in> set (alt1 P s) \<longleftrightarrow> (\<exists>a. s = a # r \<and> t = [a] \<and> P a)"
  by (auto simp: alt1_def split: list.splits)

lemma in_alt2: "(t, r) \<in> set (alt2 P Q s) \<longleftrightarrow> (\<exists>a b. s = a # b # r \<and> t = [a, b] \<and> P a \<and> Q b)"
  by (auto simp: alt2_def split: list.splits)

lemma in_re_dot: "r \<in> set (re_dot s) \<longleftrightarrow> s = dot # r"
  by (auto simp: re_dot_def split: list.splits)

lemma in_re_Y:
  "(t, r) \<in> set (re_Y s) \<longleftrightarrow>
   (\<exists>a b c d. s = a # b # c # d # r \<and> t = [a, b, c, d] \<and> is_digit a \<and> is_digit b \<and> is_digit c \<and> is_digit d)"
  by (auto simp: re_Y_def split: list.splits)

lemma in_re_d:
  "(t, r) \<in> set (re_d s) \<Longrightarrow>
   (\<exists>a b. s = a # b # r \<and> t = [a, b]) \<or> (\<exists>a. s = a # r \<and> t = [a])"
  by (auto simp: re_d_def in_alt1 in_alt2)

lemma in_re_m:
  "(t, r) \<in> set (re_m s) \<Longrightarrow>
   (\<exists>a b. s = a # b # r \<and> t = [a, b]) \<or> (\<exists>a. s = a # r \<and> t = [a])"
  by (auto simp: re_m_def in_alt1 in_alt2)

lemma in_re_match:
  "((d, m, y), r5) \<in> set (re_match s) \<Longrightarrow>
   \<exists>r1 r2 r3 r4. (d, r1) \<in> set (re_d s) \<and> r2 \<in> set (re_dot r1) \<and> (m, r3) \<in> set (re_m r2) \<and>
      r4 \<in> set (re_dot r3) \<and> (y, r5) \<in> set (re_Y r4)"
  by (auto simp: re_match_def)

lemma re_match_shape:
  assumes "b \<noteq> dot" "e \<noteq> dot"
    and "x \<in> set (re_match (a # b # dot # c # e # dot # rest))"
  shows "\<exists>f g h i r. rest = f # g # h # i # r \<and> x = (([a, b], [c, e], [f, g, h, i]), r) \<and>
    is_digit f \<and> is_digit g \<and> is_digit h \<and> is_digit i"
proof -
  obtain d m y r5 where x: "x = ((d, m, y), r5)" by (cases x) auto
  from assms(3) obtain r1 r2 r3 r4 where
    1: "(d, r1) \<in> set (re_d (a # b # dot # c # e # dot # rest))" and
    2: "r2 \<in> set (re_dot r1)" and 3: "(m, r3) \<in> set (re_m r2)" and
    4: "r4 \<in> set (re_dot r3)" and 5: "(y, r5) \<in> set (re_Y r4)"
    unfolding x by (blast dest: in_re_match)
  from in_re_d[OF 1] 2 assms(1) have d: "d = [a, b]" and r2: "r2 = c # e # dot # rest"
    by (auto simp: in_re_dot)
  from in_re_m[OF 3[unfolded r2]] 4 assms(2) have m: "m = [c, e]" and r4: "r4 = rest"
    by (auto simp: in_re_dot)
  from 5 show ?thesis unfolding x d m r4 in_re_Y by auto
qed

lemma ddmmyyyy_iff:
  "ddmmyyyy s \<longleftrightarrow> (\<exists>a b c e f g h i. s = [a, b, dot, c, e, dot, f, g, h, i] \<and>
     ascii_digit a \<and> ascii_digit b \<and> ascii_digit c \<and> ascii_digit e \<and>
     ascii_digit f \<and> ascii_digit g \<and> ascii_digit h \<and> ascii_digit i)"
  by (auto simp: ddmmyyyy_def split: list.splits)

lemma strptime_shape:
  assumes "b \<noteq> dot" "e \<noteq> dot"
  shows "strptime [a, b, dot, c, e, dot, f, g, h, i] =
    (if re_match [a, b, dot, c, e, dot, f, g, h, i] = []
     then Inl (ValueError ''time data does not match format'')
     else date_new (py_int [f, g, h, i]) (py_int [c, e]) (py_int [a, b]))"
proof (cases "re_match [a, b, dot, c, e, dot, f, g, h, i]")
  case Nil
  then show ?thesis by (simp add: strptime_def)
next
  case (Cons x xs)
  then have "x \<in> set (re_match (a # b # dot # c # e # dot # [f, g, h, i]))" by simp
  from re_match_shape[OF assms this] have "x = (([a, b], [c, e], [f, g, h, i]), [])" by auto
  then show ?thesis using Cons by (simp add: strptime_def)
qed

lemma strptime_too_short:
  assumes "b \<noteq> dot" "e \<noteq> dot" "length rest \<le> 3"
  shows "strptime (a # b # dot # c # e # dot # rest) =
    Inl (ValueError ''time data does not match format'')"
proof (cases "re_match (a # b # dot # c # e # dot # rest)")
  case Nil
  then show ?thesis by (simp add: strptime_def)
next
  case (Cons x xs)
  then have "x \<in> set (re_match (a # b # dot # c # e # dot # rest))" by simp
  from re_match_shape[OF assms(1,2) this] assms(3) show ?thesis by auto
qed

text \<open>A text of the form \<open>DD.MM.YYYY\<close> that parses to a year from 1000 on is the text
  of the date; the year of a date below 1000 is written with fewer digits.\<close>

lemma strftime_strptime_shape:
  assumes "ddmmyyyy s" "strptime s = Inr d" "1000 \<le> year d"
  shows "strftime d = s"
proof -
  from assms(1) obtain a b c e f g h i where
    s: "s = [a, b, dot, c, e, dot, f, g, h, i]" and
    dg: "ascii_digit a" "ascii_digit b" "ascii_digit c" "ascii_digit e"
      "ascii_digit f" "ascii_digit g" "ascii_digit h" "ascii_digit i"
    unfolding ddmmyyyy_iff by blast
  have nd: "b \<noteq> dot" "e \<noteq> dot" using dg(2,4) by (simp_all add: ascii_not_dot)
  have "date_new (py_int [f, g, h, i]) (py_int [c, e]) (py_int [a, b]) = Inr d"
    using assms(2) strptime_shape[OF nd] unfolding s by (simp split: if_splits)
  from date_new_Inr[OF this] have
    y: "year d = py_int [f, g, h, i]" and m: "month d = py_int [c, e]"
    and dd: "day d = py_int [a, b]" by simp_all
  have y4: "year d = 1000 * digit_val f + 100 * digit_val g + 10 * digit_val h + digit_val i"
    unfolding y by (rule py_int_4[OF dg(5-8)])
  have "decimal (year d) = [f, g, h, i]"
    unfolding y4 using assms(3)[unfolded y4] by (rule decimal_digits[OF dg(5-8)])
  then show ?thesis
    using dg by (simp add: strftime_def s m dd py_int_2 pad2_digits)
qed

lemma in_re_d_iff:
  "(t, r) \<in> set (re_d s) \<longleftrightarrow>
   (\<exists>a b. s = a # b # r \<and> t = [a, b] \<and>
      (one_of (ustr ''3'') a \<and> one_of (ustr ''01'') b \<or> one_of (ustr ''12'') a \<and> is_digit b \<or>
       one_of (ustr ''0'') a \<and> one_of (ustr ''123456789'') b \<or> one_of (ustr '' '') a \<and> one_of (ustr ''123456789'') b)) \<or>
   (\<exists>a. s = a # r \<and> t = [a] \<and> one_of (ustr ''123456789'') a)"
  by (auto simp: re_d_def in_alt1 in_alt2)

lemma in_re_m_iff:
  "(t, r) \<in> set (re_m s) \<longleftrightarrow>
   (\<exists>a b. s = a # b # r \<and> t = [a, b] \<and>
      (one_of (ustr ''1'') a \<and> one_of (ustr ''012'') b \<or> one_of (ustr ''0'') a \<and> one_of (ustr ''123456789'') b)) \<or>
   (\<exists>a. s = a # r \<and> t = [a] \<and> one_of (ustr ''123456789'') a)"
  by (auto simp: re_m_def in_alt1 in_alt2)

lemma in_concat_map: "y \<in> set xs \<Longrightarrow> x \<in> set (f y) \<Longrightarrow> x \<in> set (concat (map f xs))"
  by auto

lemma re_match_intro:
  assumes "(d, r1) \<in> set (re_d s)" "r2 \<in> set (re_dot r1)" "(m, r3) \<in> set (re_m r2)"
    "r4 \<in> set (re_dot r3)" "(y, r5) \<in> set (re_Y r4)"
  shows "((d, m, y), r5) \<in> set (re_match s)"
proof -
  have 5: "((d, m, y), r5) \<in> set [((d, m, y'), r5'). (y', r5') \<leftarrow> re_Y r4]"
    using assms(5) by (simp add: image_iff) (rule bexI[of _ "(y, r5)"], simp_all)
  have 4: "((d, m, y), r5) \<in> set [((d, m, y'), r5'). r4' \<leftarrow> re_dot r3, (y', r5') \<leftarrow> re_Y r4']"
    by (rule in_concat_map[OF assms(4)]) (rule 5)
  have 3: "((d, m, y), r5) \<in> set [((d, m', y'), r5'). (m', r3') \<leftarrow> re_m r2,
      r4' \<leftarrow> re_dot r3', (y', r5') \<leftarrow> re_Y r4']"
    by (rule in_concat_map[OF assms(3)]) (simp only: prod.case, rule 4)
  have 2: "((d, m, y), r5) \<in> set [((d, m', y'), r5'). r2' \<leftarrow> re_dot r1, (m', r3') \<leftarrow> re_m r2',
      r4' \<leftarrow> re_dot r3', (y', r5') \<leftarrow> re_Y r4']"
    by (rule in_concat_map[OF assms(2)]) (rule 3)
  show ?thesis unfolding re_match_def
    by (rule in_concat_map[OF assms(1)]) (simp only: prod.case, rule 2)
qed

lemma days_in_month_le: "1 \<le> m \<Longrightarrow> m \<le> 12 \<Longrightarrow> days_in_month y m \<le> 31"
  using month_cases[of m] by (auto simp: days_in_month_def DAYS_IN_MONTH_def)

lemma two_digits:
  fixes n :: int
  assumes "0 \<le> n" "n < 100"
  shows "0 \<le> n div 10 mod 10" "n div 10 mod 10 \<le> 9" "0 \<le> n mod 10" "n mod 10 \<le> 9"
    "10 * (n div 10 mod 10) + n mod 10 = n"
proof -
  have "0 \<le> n div 10" "n div 10 < 10" using assms by simp_all
  then have e: "n div 10 mod 10 = n div 10" by simp
  show "0 \<le> n div 10 mod 10" "n div 10 mod 10 \<le> 9" "0 \<le> n mod 10" "n mod 10 \<le> 9" by simp_all
  show "10 * (n div 10 mod 10) + n mod 10 = n" unfolding e by simp
qed

lemma combine_digits:
  fixes n :: int
  shows "n = 10 * q1 + m0 \<Longrightarrow> q1 = 10 * q2 + m1 \<Longrightarrow> q2 = 10 * q3 + m2 \<Longrightarrow>
    1000 * q3 + 100 * m2 + 10 * m1 + m0 = n"
  by simp

lemma four_digits:
  fixes n :: int
  assumes "0 \<le> n" "n < 10000"
  shows "1000 * (n div 1000 mod 10) + 100 * (n div 100 mod 10) + 10 * (n div 10 mod 10) + n mod 10 = n"
proof -
  have "0 \<le> n div 1000" "n div 1000 < 10" using assms by simp_all
  then have e: "n div 1000 mod 10 = n div 1000" by simp
  have e2: "n div 100 = n div 10 div 10" and e3: "n div 1000 = n div 100 div 10"
    by (simp_all add: div_mult2_eq [symmetric])
  have a: "n = 10 * (n div 10) + n mod 10" by simp
  have b: "n div 10 = 10 * (n div 100) + n div 10 mod 10" unfolding e2 by simp
  have c: "n div 100 = 10 * (n div 1000) + n div 100 mod 10" unfolding e3 by simp
  show ?thesis unfolding e by (rule combine_digits[OF a b c])
qed

lemma re_d_digits:
  assumes "0 \<le> a" "a \<le> 9" "0 \<le> b" "b \<le> 9"
    and "(a = 3 \<and> b \<le> 1) \<or> a = 1 \<or> a = 2 \<or> (a = 0 \<and> 1 \<le> b)"
  shows "([digit_char a, digit_char b], r) \<in> set (re_d (digit_char a # digit_char b # r))"
proof -
  have "one_of (ustr ''3'') (digit_char a) \<and> one_of (ustr ''01'') (digit_char b) \<or>
      one_of (ustr ''12'') (digit_char a) \<and> is_digit (digit_char b) \<or>
      one_of (ustr ''0'') (digit_char a) \<and> one_of (ustr ''123456789'') (digit_char b)"
    using assms(5) ascii_is_digit[OF ascii_digit_char[OF assms(3,4)]]
    unfolding one_of_digit_char[OF assms(1,2)] one_of_digit_char[OF assms(3,4)] by blast
  then show ?thesis unfolding in_re_d_iff by auto
qed

lemma re_m_digits:
  assumes "0 \<le> a" "a \<le> 9" "0 \<le> b" "b \<le> 9"
    and "(a = 1 \<and> b \<le> 2) \<or> (a = 0 \<and> 1 \<le> b)"
  shows "([digit_char a, digit_char b], r) \<in> set (re_m (digit_char a # digit_char b # r))"
proof -
  have "one_of (ustr ''1'') (digit_char a) \<and> one_of (ustr ''012'') (digit_char b) \<or>
      one_of (ustr ''0'') (digit_char a) \<and> one_of (ustr ''123456789'') (digit_char b)"
    using assms(5)
    unfolding one_of_digit_char[OF assms(1,2)] one_of_digit_char[OF assms(3,4)] by blast
  then show ?thesis unfolding in_re_m_iff by auto
qed

lemma day_digits:
  fixes a b n :: int
  shows "10 * a + b = n \<Longrightarrow> 1 \<le> n \<Longrightarrow> n \<le> 31 \<Longrightarrow> 0 \<le> a \<Longrightarrow> 0 \<le> b \<Longrightarrow> b \<le> 9 \<Longrightarrow>
    (a = 3 \<and> b \<le> 1) \<or> a = 1 \<or> a = 2 \<or> (a = 0 \<and> 1 \<le> b)"
  by arith

lemma month_digits:
  fixes a b n :: int
  shows "10 * a + b = n \<Longrightarrow> 1 \<le> n \<Longrightarrow> n \<le> 12 \<Longrightarrow> 0 \<le> a \<Longrightarrow> 0 \<le> b \<Longrightarrow> b \<le> 9 \<Longrightarrow>
    (a = 1 \<and> b \<le> 2) \<or> (a = 0 \<and> 1 \<le> b)"
  by arith

lemma in_set_nonempty: "x \<in> set xs \<Longrightarrow> xs \<noteq> []"
  by auto

lemma ascii_digit_mod: "ascii_digit (digit_char (n mod 10))"
  by (rule ascii_digit_char) simp_all

lemma digit_val_mod: "digit_val (digit_char (n mod 10)) = n mod 10"
  by (rule digit_val_char) simp_all

lemma strftime_parts:
  assumes "valid_date d"
  shows "\<exists>a b c e. strftime d = digit_char a # digit_char b # dot # digit_char c # digit_char e #
      dot # decimal (year d) \<and>
    0 \<le> a \<and> a \<le> 9 \<and> 0 \<le> b \<and> b \<le> 9 \<and> 0 \<le> c \<and> c \<le> 9 \<and> 0 \<le> e \<and> e \<le> 9 \<and>
    10 * a + b = day d \<and> 10 * c + e = month d"
proof -
  have m: "1 \<le> month d" "month d \<le> 12" and dd: "1 \<le> day d" "day d \<le> days_in_month (year d) (month d)"
    using assms by (simp_all add: valid_date_def)
  have d31: "day d \<le> 31" using dd(2) days_in_month_le[OF m, of "year d"] by simp
  have s: "strftime d = digit_char (day d div 10 mod 10) # digit_char (day d mod 10) # dot #
      digit_char (month d div 10 mod 10) # digit_char (month d mod 10) # dot # decimal (year d)"
    by (simp add: strftime_def pad2_def)
  have ab: "10 * (day d div 10 mod 10) + day d mod 10 = day d"
    using dd(1) d31 by (intro two_digits) simp_all
  have ce: "10 * (month d div 10 mod 10) + month d mod 10 = month d"
    using m by (intro two_digits) simp_all
  have r: "day d div 10 mod 10 \<le> 9" "day d mod 10 \<le> 9" "month d div 10 mod 10 \<le> 9"
    "month d mod 10 \<le> 9"
    using pos_mod_bound[of 10 "day d div 10"] pos_mod_bound[of 10 "day d"]
      pos_mod_bound[of 10 "month d div 10"] pos_mod_bound[of 10 "month d"]
    by simp_all
  show ?thesis
    by (rule exI[of _ "day d div 10 mod 10"], rule exI[of _ "day d mod 10"],
        rule exI[of _ "month d div 10 mod 10"], rule exI[of _ "month d mod 10"])
       (simp add: s ab ce r)
qed

lemma strptime_strftime:
  assumes "valid_date d" "1000 \<le> year d"
  shows "strptime (strftime d) = Inr d"
proof -
  have m: "1 \<le> month d" "month d \<le> 12" and dd: "1 \<le> day d" "day d \<le> days_in_month (year d) (month d)"
    and y: "1 \<le> year d" "year d \<le> 9999"
    using assms by (simp_all add: valid_date_def MINYEAR_def MAXYEAR_def)
  have d31: "day d \<le> 31" using dd(2) days_in_month_le[OF m, of "year d"] by simp
  from strftime_parts[OF assms(1)] obtain a b c e where
    s0: "strftime d = digit_char a # digit_char b # dot # digit_char c # digit_char e #
      dot # decimal (year d)" and
    ra: "0 \<le> a" "a \<le> 9" and rb: "0 \<le> b" "b \<le> 9" and rc: "0 \<le> c" "c \<le> 9"
    and re: "0 \<le> e" "e \<le> 9" and ab: "10 * a + b = day d" and ce: "10 * c + e = month d"
    by blast
  have y1000: "year d div 1000 mod 10 = year d div 1000" using y assms(2) by simp
  have dy: "decimal (year d) = [digit_char (year d div 1000 mod 10), digit_char (year d div 100 mod 10),
      digit_char (year d div 10 mod 10), digit_char (year d mod 10)]"
    unfolding y1000 using y(2) by (intro decimal_4[OF assms(2)]) simp
  have s: "strftime d = [digit_char a, digit_char b, dot, digit_char c, digit_char e, dot,
      digit_char (year d div 1000 mod 10), digit_char (year d div 100 mod 10),
      digit_char (year d div 10 mod 10), digit_char (year d mod 10)]"
    unfolding s0 dy by simp
  have yy: "1000 * (year d div 1000 mod 10) + 100 * (year d div 100 mod 10) +
      10 * (year d div 10 mod 10) + year d mod 10 = year d"
    using y by (intro four_digits) simp_all
  have dg: "ascii_digit (digit_char a)" "ascii_digit (digit_char b)" "ascii_digit (digit_char c)"
    "ascii_digit (digit_char e)" "ascii_digit (digit_char (year d div 1000 mod 10))"
    "ascii_digit (digit_char (year d div 100 mod 10))" "ascii_digit (digit_char (year d div 10 mod 10))"
    "ascii_digit (digit_char (year d mod 10))"
    using ra rb rc re by (simp_all add: ascii_digit_char ascii_digit_mod)
  have nd: "digit_char b \<noteq> dot" "digit_char e \<noteq> dot" using dg(2,4) by (simp_all add: ascii_not_dot)
  have da: "(a = 3 \<and> b \<le> 1) \<or> a = 1 \<or> a = 2 \<or> (a = 0 \<and> 1 \<le> b)"
    using ab dd(1) d31 ra(1) rb by (rule day_digits)
  have dc: "(c = 1 \<and> e \<le> 2) \<or> (c = 0 \<and> 1 \<le> e)"
    using ce m rc(1) re by (rule month_digits)
  have 1: "([digit_char a, digit_char b], dot # digit_char c # digit_char e # dot #
      [digit_char (year d div 1000 mod 10), digit_char (year d div 100 mod 10),
       digit_char (year d div 10 mod 10), digit_char (year d mod 10)]) \<in> set (re_d (strftime d))"
    unfolding s using re_d_digits[OF ra rb da] by simp
  have 3: "([digit_char c, digit_char e], dot #
      [digit_char (year d div 1000 mod 10), digit_char (year d div 100 mod 10),
       digit_char (year d div 10 mod 10), digit_char (year d mod 10)]) \<in>
      set (re_m (digit_char c # digit_char e # dot #
      [digit_char (year d div 1000 mod 10), digit_char (year d div 100 mod 10),
       digit_char (year d div 10 mod 10), digit_char (year d mod 10)]))"
    using re_m_digits[OF rc re dc] by simp
  have 5: "([digit_char (year d div 1000 mod 10), digit_char (year d div 100 mod 10),
       digit_char (year d div 10 mod 10), digit_char (year d mod 10)], []) \<in>
      set (re_Y [digit_char (year d div 1000 mod 10), digit_char (year d div 100 mod 10),
       digit_char (year d div 10 mod 10), digit_char (year d mod 10)])"
    unfolding in_re_Y using dg(5-8) by (simp add: ascii_is_digit)
  have "(([digit_char a, digit_char b], [digit_char c, digit_char e],
       [digit_char (year d div 1000 mod 10), digit_char (year d div 100 mod 10),
        digit_char (year d div 10 mod 10), digit_char (year d mod 10)]), []) \<in>
      set (re_match (strftime d))"
    by (rule re_match_intro[OF 1 _ 3 _ 5]) (simp_all only: in_re_dot)
  then have ne: "re_match (strftime d) \<noteq> []" by (rule in_set_nonempty)
  have p1: "py_int [digit_char a, digit_char b] = day d"
    using py_int_2[OF dg(1,2)] by (simp only: digit_val_char[OF ra] digit_val_char[OF rb] ab)
  have p2: "py_int [digit_char c, digit_char e] = month d"
    using py_int_2[OF dg(3,4)] by (simp only: digit_val_char[OF rc] digit_val_char[OF re] ce)
  have p3: "py_int [digit_char (year d div 1000 mod 10), digit_char (year d div 100 mod 10),
      digit_char (year d div 10 mod 10), digit_char (year d mod 10)] = year d"
    using py_int_4[OF dg(5-8)] by (simp only: digit_val_mod yy)
  have "strptime (strftime d) =
      date_new (py_int [digit_char (year d div 1000 mod 10), digit_char (year d div 100 mod 10),
         digit_char (year d div 10 mod 10), digit_char (year d mod 10)])
        (py_int [digit_char c, digit_char e]) (py_int [digit_char a, digit_char b])"
    unfolding s using strptime_shape[OF nd] ne[unfolded s] by (simp only: if_False)
  then show ?thesis unfolding p1 p2 p3 using date_new_valid[OF assms(1)] by simp
qed

lemma strptime_strftime_below_1000:
  assumes "valid_date d" "year d < 1000"
  shows "strptime (strftime d) = Inl (ValueError ''time data does not match format'')"
proof -
  from strftime_parts[OF assms(1)] obtain a b c e where
    s0: "strftime d = digit_char a # digit_char b # dot # digit_char c # digit_char e #
      dot # decimal (year d)" and
    rb: "0 \<le> b" "b \<le> 9" and re: "0 \<le> e" "e \<le> 9"
    by blast
  have nd: "digit_char b \<noteq> dot" "digit_char e \<noteq> dot"
    using rb re by (simp_all add: ascii_not_dot ascii_digit_char)
  show ?thesis unfolding s0 using nd decimal_short[OF assms(2)] by (rule strptime_too_short)
qed

lemma strptime_strftime_Inr:
  assumes "valid_date d" "strptime (strftime d) = Inr d'"
  shows "d' = d"
proof (cases "1000 \<le> year d")
  case True
  from strptime_strftime[OF assms(1) True] assms(2) show ?thesis by simp
next
  case False
  then have "year d < 1000" by simp
  from strptime_strftime_below_1000[OF assms(1) this] assms(2) show ?thesis by simp
qed

lemma strip_ddmmyyyy: "ddmmyyyy s \<Longrightarrow> strip s = s"
  unfolding ddmmyyyy_iff by (auto intro!: strip_id dest: ascii_not_space)

lemma birthday_roundtrip_from_1000:
  assumes "ddmmyyyy s" "Birthday today (PyStr s) = Inr d" "1000 \<le> year d"
  shows "Birthday_str d = s"
proof -
  have "strptime s = Inr d"
    using assms(2) strip_ddmmyyyy[OF assms(1)]
    by (auto simp: Birthday_def parse_birthday_def split: sum.splits if_splits)
  then show ?thesis
    unfolding Birthday_str_def using assms(1,3) by (intro strftime_strptime_shape)
qed

lemma birthday_roundtrip_example:
  "Birthday monday (PyStr (ustr ''15.08.1992'')) = Inr \<lparr>year = 1992, month = 8, day = 15\<rparr> \<and>
   Birthday_str \<lparr>year = 1992, month = 8, day = 15\<rparr> = ustr ''15.08.1992''"
  by code_simp

lemma birthday_unpadded:
  "Birthday monday (PyStr (ustr '' 5.8.1992'')) = Inr \<lparr>year = 1992, month = 8, day = 5\<rparr> \<and>
   Birthday_str \<lparr>year = 1992, month = 8, day = 5\<rparr> = ustr ''05.08.1992''"
  by code_simp

text \<open>
  C8. For a text of the form \<open>DD.MM.YYYY\<close> that \<open>Birthday\<close> accepts, the text of the
  birthday is the text given. So it is when the year is 1000 or more
  (\<open>birthday_roundtrip_from_1000\<close>); the year of a birthday before the year 1000 is
  written without its leading zeros, and the text of the birthday is not the text given.
\<close>

theorem birthday_year_below_1000:
  "ddmmyyyy (ustr ''15.08.0992'') \<and>
   Birthday monday (PyStr (ustr ''15.08.0992'')) = Inr \<lparr>year = 992, month = 8, day = 15\<rparr> \<and>
   Birthday_str \<lparr>year = 992, month = 8, day = 15\<rparr> = ustr ''15.08.992''"
  by code_simp

subsection \<open>The loop and the sort of the query\<close>

lemma upcoming_entry_None: "birthday r = None \<Longrightarrow> upcoming_entry today r = Inr None"
  by (simp add: upcoming_entry_def)

lemma upcoming_entry_error:
  "birthday r = Some b \<Longrightarrow> occurrence today b = Inl e \<Longrightarrow> upcoming_entry today r = Inl e"
  by (simp add: upcoming_entry_def)

lemma upcoming_entry_Some:
  assumes "birthday r = Some b" "occurrence today b = Inr occ"
  shows "upcoming_entry today r =
    Inr (if in_window today occ then Some (name r, strftime (add_days occ (shift_days occ))) else None)"
proof -
  have "valid_date occ" using occurrence_Inr[OF assms(2)] by simp
  from congratulation_total[OF this] show ?thesis
    using assms by (simp add: upcoming_entry_def in_window_def Let_def)
qed

lemma upcoming_entry_cases:
  obtains (none) "birthday r = None" "upcoming_entry today r = Inr None"
  | (error) b msg where "birthday r = Some b" "occurrence today b = Inl (ValueError msg)"
      "upcoming_entry today r = Inl (ValueError msg)"
  | (out) b occ where "birthday r = Some b" "occurrence today b = Inr occ" "\<not> in_window today occ"
      "upcoming_entry today r = Inr None"
  | (hit) b occ where "birthday r = Some b" "occurrence today b = Inr occ" "in_window today occ"
      "upcoming_entry today r = Inr (Some (name r, strftime (add_days occ (shift_days occ))))"
proof (cases "birthday r")
  case None
  then show ?thesis using none upcoming_entry_None by blast
next
  case (Some b)
  show ?thesis
  proof (cases "occurrence today b")
    case (Inl e)
    then obtain msg where "e = ValueError msg" using occurrence_error by blast
    then show ?thesis using error Some Inl upcoming_entry_error by blast
  next
    case (Inr occ)
    show ?thesis
      using upcoming_entry_Some[OF Some Inr] out[OF Some Inr] hit[OF Some Inr]
      by (cases "in_window today occ") simp_all
  qed
qed

lemma entries_of_Cons:
  "entries_of today (r # rs) =
    (case upcoming_entry today r of Inr (Some en) \<Rightarrow> [en] | _ \<Rightarrow> []) @ entries_of today rs"
  by (simp add: entries_of_def)

lemma upcoming_loop_Inr:
  "upcoming_loop today acc rs = Inr res \<Longrightarrow>
   res = acc @ entries_of today rs \<and> (\<forall>r \<in> set rs. \<exists>eo. upcoming_entry today r = Inr eo)"
proof (induction rs arbitrary: acc)
  case Nil
  then show ?case by (simp add: entries_of_def)
next
  case (Cons r rs)
  show ?case
  proof (cases "upcoming_entry today r")
    case (Inl e)
    then show ?thesis using Cons.prems by simp
  next
    case (Inr eo)
    show ?thesis
    proof (cases eo)
      case None
      then have "upcoming_loop today acc rs = Inr res" using Cons.prems Inr by simp
      from Cons.IH[OF this] show ?thesis using Inr None by (simp add: entries_of_Cons)
    next
      case (Some en)
      then have "upcoming_loop today (acc @ [en]) rs = Inr res" using Cons.prems Inr by simp
      from Cons.IH[OF this] show ?thesis using Inr Some by (simp add: entries_of_Cons)
    qed
  qed
qed

lemma upcoming_loop_total:
  "\<forall>r \<in> set rs. \<exists>eo. upcoming_entry today r = Inr eo \<Longrightarrow>
   upcoming_loop today acc rs = Inr (acc @ entries_of today rs)"
proof (induction rs arbitrary: acc)
  case Nil
  then show ?case by (simp add: entries_of_def)
next
  case (Cons r rs)
  then obtain eo where eo: "upcoming_entry today r = Inr eo" by auto
  have "\<forall>r \<in> set rs. \<exists>eo. upcoming_entry today r = Inr eo" using Cons.prems by simp
  note ih = Cons.IH[OF this]
  show ?case using eo ih by (cases eo) (simp_all add: entries_of_Cons)
qed

lemma upcoming_loop_error:
  "r \<in> set rs \<Longrightarrow> upcoming_entry today r = Inl e \<Longrightarrow>
   \<exists>r' e'. r' \<in> set rs \<and> upcoming_entry today r' = Inl e' \<and> upcoming_loop today acc rs = Inl e'"
proof (induction rs arbitrary: acc)
  case Nil
  then show ?case by simp
next
  case (Cons x rs)
  show ?case
  proof (cases "upcoming_entry today x")
    case (Inl e')
    then show ?thesis by auto
  next
    case (Inr eo)
    then have "x \<noteq> r" using Cons.prems(2) by auto
    then have "r \<in> set rs" using Cons.prems(1) by simp
    from Cons.IH[OF this Cons.prems(2)] Inr show ?thesis
      by (cases eo) (simp_all, blast+)
  qed
qed

lemma entries_of_set:
  "x \<in> set (entries_of today rs) \<longleftrightarrow> (\<exists>r \<in> set rs. upcoming_entry today r = Inr (Some x))"
proof (induction rs)
  case Nil
  then show ?case by (simp add: entries_of_def)
next
  case (Cons r rs)
  show ?case
  proof (cases "upcoming_entry today r")
    case (Inl e)
    then show ?thesis using Cons by (simp add: entries_of_Cons)
  next
    case (Inr eo)
    then show ?thesis using Cons by (cases eo) (auto simp: entries_of_Cons)
  qed
qed

lemma entries_of_form:
  assumes "x \<in> set (entries_of today rs)"
  shows "\<exists>r b occ. r \<in> set rs \<and> birthday r = Some b \<and> occurrence today b = Inr occ \<and>
    in_window today occ \<and> x = (name r, strftime (add_days occ (shift_days occ)))"
proof -
  from assms obtain r where r: "r \<in> set rs" "upcoming_entry today r = Inr (Some x)"
    unfolding entries_of_set by blast
  show ?thesis
  proof (rule upcoming_entry_cases[of r today])
    assume "upcoming_entry today r = Inr None"
    then show ?thesis using r by simp
  next
    fix b msg assume "upcoming_entry today r = Inl (ValueError msg)"
    then show ?thesis using r by simp
  next
    fix b occ assume "upcoming_entry today r = Inr None"
    then show ?thesis using r by simp
  next
    fix b occ
    assume "birthday r = Some b" "occurrence today b = Inr occ" "in_window today occ"
      "upcoming_entry today r = Inr (Some (name r, strftime (add_days occ (shift_days occ))))"
    then show ?thesis using r by auto
  qed
qed

lemma sort_keys_ok:
  "\<forall>x \<in> set res. \<exists>d. strptime (snd x) = Inr d \<Longrightarrow>
   sort_keys res = Inr (map (\<lambda>x. (entry_key x, x)) res)"
proof (induction res)
  case Nil
  then show ?case by simp
next
  case (Cons x res)
  then obtain d where d: "strptime (snd x) = Inr d" by auto
  have "sort_keys res = Inr (map (\<lambda>x. (entry_key x, x)) res)" using Cons by simp
  then show ?case using d by (simp add: entry_key_def)
qed

lemma sort_decorated:
  "sort_key fst (map (\<lambda>x. (f x, x)) xs) = map (\<lambda>x. (f x, x)) (sort_key f xs)"
proof (induction xs)
  case Nil
  show ?case by simp
next
  case (Cons x xs)
  have "insort_key fst (f x, x) (map (\<lambda>x. (f x, x)) ys) = map (\<lambda>x. (f x, x)) (insort_key f x ys)" for ys
    by (induction ys) simp_all
  then show ?case using Cons by simp
qed

lemma sorted_by_date_ok:
  assumes "\<forall>x \<in> set res. \<exists>d. strptime (snd x) = Inr d"
  shows "sorted_by_date res = Inr (sort_key entry_key res)"
  using sort_keys_ok[OF assms] by (simp add: sorted_by_date_def sort_decorated comp_def)

lemma sort_keys_Inr:
  "sort_keys res = Inr kxs \<Longrightarrow> \<forall>x \<in> set res. \<exists>d. strptime (snd x) = Inr d"
proof (induction res arbitrary: kxs)
  case Nil
  then show ?case by simp
next
  case (Cons x res)
  then show ?case
    by (cases "strptime (snd x)"; cases "sort_keys res") auto
qed

lemma sorted_by_date_Inr:
  assumes "sorted_by_date res = Inr out"
  shows "out = sort_key entry_key res" and "\<forall>x \<in> set res. \<exists>d. strptime (snd x) = Inr d"
proof -
  from assms obtain kxs where "sort_keys res = Inr kxs"
    by (auto simp: sorted_by_date_def split: sum.splits)
  from sort_keys_Inr[OF this] show p: "\<forall>x \<in> set res. \<exists>d. strptime (snd x) = Inr d" .
  from sorted_by_date_ok[OF p] assms show "out = sort_key entry_key res" by simp
qed

lemma year_next_day: "year d \<le> year (next_day d)"
  by (simp add: next_day_def)

lemma year_add_days: "year d \<le> year (add_days d n)"
proof (induction n arbitrary: d)
  case 0
  show ?case by simp
next
  case (Suc n)
  show ?case using year_next_day[of d] Suc[of "next_day d"] by simp
qed

lemma entries_of_dates:
  assumes "x \<in> set (entries_of today rs)"
  shows "\<exists>g. valid_date g \<and> snd x = strftime g \<and> 0 \<le> weekday g \<and> weekday g \<le> 4 \<and>
    year today \<le> year g"
proof -
  from entries_of_form[OF assms] obtain r :: Record and b occ where
    o: "occurrence today b = Inr occ" and x: "x = (name r, strftime (add_days occ (shift_days occ)))"
    by blast
  have v: "valid_date occ" and y: "year today \<le> year occ" using occurrence_Inr[OF o] by simp_all
  note w = congratulation_weekday[OF v]
  have "0 \<le> weekday (add_days occ (shift_days occ)) \<and> weekday (add_days occ (shift_days occ)) \<le> 4"
    using w weekday_range[of occ] by (simp split: if_splits)
  moreover have "year today \<le> year (add_days occ (shift_days occ))"
    using y year_add_days[of occ "shift_days occ"] by simp
  ultimately show ?thesis using w x by auto
qed

lemma get_upcoming_birthdays_Inr:
  assumes "get_upcoming_birthdays today book = Inr out"
  shows "out = sort_key entry_key (entries_of today (map snd book))"
    and "\<forall>r \<in> set (map snd book). \<exists>eo. upcoming_entry today r = Inr eo"
    and "\<forall>x \<in> set (entries_of today (map snd book)). \<exists>d. strptime (snd x) = Inr d"
proof -
  from assms obtain res where l: "upcoming_loop today [] (map snd book) = Inr res"
    and s: "sorted_by_date res = Inr out"
    by (auto simp: get_upcoming_birthdays_def split: sum.splits)
  from upcoming_loop_Inr[OF l] have res: "res = entries_of today (map snd book)"
    and ok: "\<forall>r \<in> set (map snd book). \<exists>eo. upcoming_entry today r = Inr eo" by simp_all
  from sorted_by_date_Inr[OF s]
  show "out = sort_key entry_key (entries_of today (map snd book))"
    and "\<forall>x \<in> set (entries_of today (map snd book)). \<exists>d. strptime (snd x) = Inr d"
    unfolding res by simp_all
  show "\<forall>r \<in> set (map snd book). \<exists>eo. upcoming_entry today r = Inr eo" by (rule ok)
qed

lemma result_dates:
  assumes "get_upcoming_birthdays today book = Inr out"
    "x \<in> set (entries_of today (map snd book))"
  shows "\<exists>g. valid_date g \<and> snd x = strftime g \<and> strptime (snd x) = Inr g \<and>
    0 \<le> weekday g \<and> weekday g \<le> 4"
proof -
  from entries_of_dates[OF assms(2)] obtain g where
    g: "valid_date g" "snd x = strftime g" "0 \<le> weekday g" "weekday g \<le> 4" by blast
  from get_upcoming_birthdays_Inr(3)[OF assms(1)] assms(2) obtain d where
    d: "strptime (snd x) = Inr d" by blast
  from strptime_strftime_Inr[OF g(1) d[unfolded g(2)]] have "d = g" .
  then show ?thesis using g d by blast
qed

lemma get_upcoming_birthdays_total:
  assumes "\<forall>r \<in> set (map snd book). \<exists>eo. upcoming_entry today r = Inr eo"
    and "1000 \<le> year today"
  shows "get_upcoming_birthdays today book = Inr (sort_key entry_key (entries_of today (map snd book)))"
proof -
  have l: "upcoming_loop today [] (map snd book) = Inr (entries_of today (map snd book))"
    using upcoming_loop_total[OF assms(1), of "[]"] by simp
  have "\<exists>d. strptime (snd x) = Inr d" if "x \<in> set (entries_of today (map snd book))" for x
  proof -
    from entries_of_dates[OF that] obtain g where
      g: "valid_date g" "snd x = strftime g" "year today \<le> year g" by blast
    have "1000 \<le> year g" using g(3) assms(2) by simp
    from strptime_strftime[OF g(1) this] show ?thesis unfolding g(2) by blast
  qed
  then have "\<forall>x \<in> set (entries_of today (map snd book)). \<exists>d. strptime (snd x) = Inr d" by blast
  from sorted_by_date_ok[OF this] l show ?thesis by (simp add: get_upcoming_birthdays_def)
qed

lemma get_upcoming_birthdays_error:
  assumes "r \<in> set (map snd book)" "upcoming_entry today r = Inl e"
  shows "\<exists>msg. get_upcoming_birthdays today book = Inl (ValueError msg)"
proof -
  from upcoming_loop_error[OF assms, of "[]"] obtain r' e' where
    e: "upcoming_entry today r' = Inl e'" and l: "upcoming_loop today [] (map snd book) = Inl e'"
    by blast
  have "\<exists>msg. e' = ValueError msg"
    by (rule upcoming_entry_cases[of r' today]) (use e in auto)
  then show ?thesis using l by (auto simp: get_upcoming_birthdays_def)
qed

subsection \<open>Upcoming birthdays\<close>

lemma set_get_upcoming_birthdays:
  assumes "get_upcoming_birthdays today book = Inr out"
  shows "set out = set (entries_of today (map snd book))"
  using get_upcoming_birthdays_Inr(1)[OF assms] by simp

lemma record_of_name:
  assumes "keys_match book" "distinct (map fst book)" "(k, r) \<in> set book"
    "r' \<in> set (map snd book)" "name r' = name r"
  shows "r' = r"
proof -
  from assms(4) obtain k' where k': "(k', r') \<in> set book" by auto
  have "k' = name r'" "k = name r"
    using assms(1,3) k' by (auto simp: keys_match_def list_all_iff)
  then have "(k, r') \<in> set book" using k' assms(5) by simp
  from eq_key_imp_eq_value[OF assms(2) this assms(3)] show ?thesis .
qed

lemma occurrence_of_record:
  assumes "get_upcoming_birthdays today book = Inr out" "(k, r) \<in> set book" "birthday r = Some b"
  shows "\<exists>occ. occurrence today b = Inr occ"
proof (cases "occurrence today b")
  case (Inl e)
  have "r \<in> set (map snd book)" using assms(2) by force
  with get_upcoming_birthdays_Inr(2)[OF assms(1)] upcoming_entry_error[OF assms(3) Inl]
  show ?thesis by auto
next
  case (Inr occ)
  then show ?thesis by blast
qed

lemma record_in_result:
  assumes "get_upcoming_birthdays today book = Inr out" "keys_match book"
    "distinct (map fst book)" "(k, r) \<in> set book" "birthday r = Some b"
    "occurrence today b = Inr occ"
  shows "(name r, s) \<in> set out \<longleftrightarrow>
    in_window today occ \<and> s = strftime (add_days occ (shift_days occ))"
proof
  assume "(name r, s) \<in> set out"
  then obtain r' where r': "r' \<in> set (map snd book)"
    and e: "upcoming_entry today r' = Inr (Some (name r, s))"
    unfolding set_get_upcoming_birthdays[OF assms(1)] entries_of_set by blast
  have "name r' = name r"
    by (rule upcoming_entry_cases[of r' today]) (use e in auto)
  from record_of_name[OF assms(2,3,4) r' this] e upcoming_entry_Some[OF assms(5,6)]
  show "in_window today occ \<and> s = strftime (add_days occ (shift_days occ))"
    by (auto split: if_splits)
next
  assume a: "in_window today occ \<and> s = strftime (add_days occ (shift_days occ))"
  have "r \<in> set (map snd book)" using assms(4) by force
  moreover have "upcoming_entry today r = Inr (Some (name r, s))"
    using upcoming_entry_Some[OF assms(5,6)] a by simp
  ultimately show "(name r, s) \<in> set out"
    unfolding set_get_upcoming_birthdays[OF assms(1)] entries_of_set by blast
qed



text \<open>
  C3. The congratulation date of a record in the result is its occurrence moved by two
  days when the occurrence is a Saturday and by one day when it is a Sunday, which is
  a Monday in both cases, and the occurrence itself otherwise; the window is tested on
  the occurrence, not on the date moved.
\<close>

theorem congratulation_shift:
  assumes "get_upcoming_birthdays today book = Inr out" "keys_match book"
    "distinct (map fst book)" "(k, r) \<in> set book" "birthday r = Some b"
    "(name r, s) \<in> set out"
  shows "\<exists>occ. occurrence today b = Inr occ \<and>
    0 \<le> toordinal occ - toordinal today \<and> toordinal occ - toordinal today < 7 \<and>
    s = strftime (add_days occ (if weekday occ = 5 then 2 else if weekday occ = 6 then 1 else 0)) \<and>
    toordinal (add_days occ (if weekday occ = 5 then 2 else if weekday occ = 6 then 1 else 0)) =
      toordinal occ + (if weekday occ = 5 then 2 else if weekday occ = 6 then 1 else 0) \<and>
    weekday (add_days occ (if weekday occ = 5 then 2 else if weekday occ = 6 then 1 else 0)) =
      (if weekday occ = 5 \<or> weekday occ = 6 then 0 else weekday occ) \<and>
    (weekday occ \<noteq> 5 \<and> weekday occ \<noteq> 6 \<longrightarrow> s = strftime occ)"
proof -
  from occurrence_of_record[OF assms(1,4,5)] obtain occ where o: "occurrence today b = Inr occ"
    by blast
  have v: "valid_date occ" using occurrence_Inr[OF o] by simp
  from record_in_result[OF assms(1-5) o] assms(6)
  have w: "in_window today occ" and s: "s = strftime (add_days occ (shift_days occ))" by simp_all
  note c = congratulation_weekday[OF v]
  have r: "0 \<le> weekday occ" "weekday occ < 7" using weekday_range[of occ] by simp_all
  have k: "(5 \<le> weekday occ) = (weekday occ = 5 \<or> weekday occ = 6)" using r by auto
  have z: "weekday occ \<noteq> 5 \<and> weekday occ \<noteq> 6 \<longrightarrow> s = strftime occ"
    using s by (simp add: shift_days_def)
  show ?thesis
    using o w s c z unfolding k
    by (intro exI[of _ occ]) (simp add: in_window_def days_between_def shift_days_def)
qed

theorem congratulation_shift_witness:
  "get_upcoming_birthdays monday example_book =
     Inr [(ustr ''Cy'', ustr ''10.06.2024''), (ustr ''Di'', ustr ''17.06.2024''), (ustr ''Ann'', ustr ''17.06.2024'')] \<and>
   keys_match example_book \<and> distinct (map fst example_book) \<and>
   (ustr ''Ann'', ann) \<in> set example_book \<and>
   occurrence monday \<lparr>year = 1990, month = 6, day = 16\<rparr> = Inr \<lparr>year = 2024, month = 6, day = 16\<rparr> \<and>
   weekday \<lparr>year = 2024, month = 6, day = 16\<rparr> = 6 \<and>
   add_days \<lparr>year = 2024, month = 6, day = 16\<rparr> 1 = \<lparr>year = 2024, month = 6, day = 17\<rparr> \<and>
   weekday \<lparr>year = 2024, month = 6, day = 17\<rparr> = 0 \<and>
   toordinal \<lparr>year = 2024, month = 6, day = 16\<rparr> - toordinal monday = 6 \<and>
   toordinal \<lparr>year = 2024, month = 6, day = 17\<rparr> - toordinal monday = 7 \<and>
   strftime \<lparr>year = 2024, month = 6, day = 17\<rparr> = ustr ''17.06.2024''"
proof -
  have q: "get_upcoming_birthdays monday example_book =
     Inr [(ustr ''Cy'', ustr ''10.06.2024''), (ustr ''Di'', ustr ''17.06.2024''), (ustr ''Ann'', ustr ''17.06.2024'')]"
    by code_simp
  have k: "keys_match example_book" by code_simp
  have d: "distinct (map fst example_book)" by code_simp
  have a: "(ustr ''Ann'', ann) \<in> set example_book" by code_simp
  have ab: "birthday ann = Some \<lparr>year = 1990, month = 6, day = 16\<rparr>" by (simp add: ann_def)
  have m: "(name ann, ustr ''17.06.2024'') \<in>
      set [(ustr ''Cy'', ustr ''10.06.2024''), (ustr ''Di'', ustr ''17.06.2024''), (ustr ''Ann'', ustr ''17.06.2024'')]"
    by (simp add: ann_def)
  have o: "occurrence monday \<lparr>year = 1990, month = 6, day = 16\<rparr> =
      Inr \<lparr>year = 2024, month = 6, day = 16\<rparr>" by code_simp
  have w: "weekday \<lparr>year = 2024, month = 6, day = 16\<rparr> = 6" by code_simp
  have n: "add_days \<lparr>year = 2024, month = 6, day = 16\<rparr> 1 = \<lparr>year = 2024, month = 6, day = 17\<rparr>"
    by code_simp
  have t6: "toordinal \<lparr>year = 2024, month = 6, day = 16\<rparr> - toordinal monday = 6" by code_simp
  have t7: "toordinal \<lparr>year = 2024, month = 6, day = 17\<rparr> - toordinal monday = 7" by code_simp
  from congratulation_shift[OF q k d a ab m] o w n
  have "weekday \<lparr>year = 2024, month = 6, day = 17\<rparr> = 0 \<and>
      strftime \<lparr>year = 2024, month = 6, day = 17\<rparr> = ustr ''17.06.2024''"
    by auto
  with q k d a o w n t6 t7 show ?thesis by blast
qed

text \<open>
  C6. When a record of the store has its birthday on 29 February and the year of the
  evaluation date is not a leap year, the query raises the \<open>ValueError\<close> of the date
  constructor and returns no result: no day is skipped and none is put in its place.
\<close>

theorem leap_day_fails:
  assumes "(k, r) \<in> set book" "birthday r = Some b" "month b = 2" "day b = 29"
    "\<not> is_leap (year today)"
  shows "\<exists>msg. get_upcoming_birthdays today book = Inl (ValueError msg)"
proof -
  have "\<exists>e. date_new (year today) 2 29 = Inl e"
    using assms(5) by (simp add: date_new_def days_in_month_def DAYS_IN_MONTH_def)
  then obtain e where "occurrence today b = Inl e"
    using assms(3,4) by (auto simp: occurrence_def)
  from upcoming_entry_error[OF assms(2) this] have "upcoming_entry today r = Inl e" .
  moreover have "r \<in> set (map snd book)" using assms(1) by force
  ultimately show ?thesis by (intro get_upcoming_birthdays_error)
qed

theorem leap_day_fails_witness:
  "(ustr ''Fe'', fe) \<in> set (add_record example_book fe) \<and>
   birthday fe = Some \<lparr>year = 2000, month = 2, day = 29\<rparr> \<and>
   \<not> is_leap (year (monday\<lparr>year := 2023\<rparr>)) \<and>
   (\<exists>msg. get_upcoming_birthdays (monday\<lparr>year := 2023\<rparr>) (add_record example_book fe) =
      Inl (ValueError msg)) \<and>
   get_upcoming_birthdays (monday\<lparr>year := 2023\<rparr>) (add_record example_book fe) =
      Inl (ValueError ''day is out of range for month'')"
proof -
  have f: "(ustr ''Fe'', fe) \<in> set (add_record example_book fe)" by code_simp
  have b: "birthday fe = Some \<lparr>year = 2000, month = 2, day = 29\<rparr>" by (simp add: fe_def)
  have l: "\<not> is_leap (year (monday\<lparr>year := 2023\<rparr>))" by code_simp
  have e: "get_upcoming_birthdays (monday\<lparr>year := 2023\<rparr>) (add_record example_book fe) =
      Inl (ValueError ''day is out of range for month'')" by code_simp
  from leap_day_fails[OF f b _ _ l] f b l e show ?thesis by simp
qed

text \<open>
  C9. The result is the list of the entries of the qualifying records, in the order of
  the store, sorted by a stable sort on the date of congratulation alone: the entries
  with the same congratulation date stand in the result in the order of the store.
\<close>

theorem equal_dates_keep_store_order:
  assumes "get_upcoming_birthdays today book = Inr out"
  shows "out = sort_key entry_key (entries_of today (map snd book)) \<and>
    filter (\<lambda>x. snd x = s) out = filter (\<lambda>x. snd x = s) (entries_of today (map snd book))"
proof -
  define res where "res = entries_of today (map snd book)"
  have out: "out = sort_key entry_key res"
    unfolding res_def by (rule get_upcoming_birthdays_Inr(1)[OF assms])
  have inj: "entry_key x = entry_key y \<longleftrightarrow> snd x = snd y" if "x \<in> set res" "y \<in> set res" for x y
  proof -
    from result_dates[OF assms that(1)[unfolded res_def]] obtain g where
      g: "snd x = strftime g" "strptime (snd x) = Inr g" by blast
    from result_dates[OF assms that(2)[unfolded res_def]] obtain h where
      h: "snd y = strftime h" "strptime (snd y) = Inr h" by blast
    have "date_key g = date_key h \<longleftrightarrow> g = h" by (auto simp: date_key_def)
    then show ?thesis using g h by (auto simp: entry_key_def)
  qed
  have "filter (\<lambda>x. snd x = s) out = filter (\<lambda>x. snd x = s) res"
  proof (cases "\<exists>y \<in> set res. snd y = s")
    case False
    then have "filter (\<lambda>x. snd x = s) res = []" "filter (\<lambda>x. snd x = s) out = []"
      unfolding out by (auto simp: filter_empty_conv)
    then show ?thesis by simp
  next
    case True
    then obtain y where y: "y \<in> set res" "snd y = s" by blast
    have "filter (\<lambda>x. snd x = s) out = filter (\<lambda>x. entry_key x = entry_key y) out"
      unfolding out using inj[OF _ y(1)] y(2) by (intro filter_cong) auto
    also have "\<dots> = filter (\<lambda>x. entry_key x = entry_key y) res"
      unfolding out by (rule sort_key_stable)
    also have "\<dots> = filter (\<lambda>x. snd x = s) res"
      using inj[OF _ y(1)] y(2) by (intro filter_cong) auto
    finally show ?thesis .
  qed
  then show ?thesis using out unfolding res_def by simp
qed

theorem equal_dates_keep_store_order_witness:
  "get_upcoming_birthdays monday example_book =
     Inr [(ustr ''Cy'', ustr ''10.06.2024''), (ustr ''Di'', ustr ''17.06.2024''), (ustr ''Ann'', ustr ''17.06.2024'')] \<and>
   entries_of monday (map snd example_book) =
     [(ustr ''Di'', ustr ''17.06.2024''), (ustr ''Cy'', ustr ''10.06.2024''), (ustr ''Ann'', ustr ''17.06.2024'')] \<and>
   filter (\<lambda>x. snd x = ustr ''17.06.2024'')
     [(ustr ''Cy'', ustr ''10.06.2024''), (ustr ''Di'', ustr ''17.06.2024''), (ustr ''Ann'', ustr ''17.06.2024'')] =
   filter (\<lambda>x. snd x = ustr ''17.06.2024'') (entries_of monday (map snd example_book))"
proof -
  have q: "get_upcoming_birthdays monday example_book =
     Inr [(ustr ''Cy'', ustr ''10.06.2024''), (ustr ''Di'', ustr ''17.06.2024''), (ustr ''Ann'', ustr ''17.06.2024'')]"
    by code_simp
  have e: "entries_of monday (map snd example_book) =
     [(ustr ''Di'', ustr ''17.06.2024''), (ustr ''Cy'', ustr ''10.06.2024''), (ustr ''Ann'', ustr ''17.06.2024'')]"
    by code_simp
  from equal_dates_keep_store_order[OF q, of "ustr ''17.06.2024''"] q e show ?thesis by blast
qed

text \<open>
  C10. Every congratulation date of the result is the text of a date from Monday to
  Friday.
\<close>

theorem congratulation_on_weekday:
  assumes "get_upcoming_birthdays today book = Inr out" "(n, s) \<in> set out"
  shows "\<exists>g. valid_date g \<and> s = strftime g \<and> strptime s = Inr g \<and>
    0 \<le> weekday g \<and> weekday g \<le> 4"
proof -
  have "(n, s) \<in> set (entries_of today (map snd book))"
    using assms(2) unfolding set_get_upcoming_birthdays[OF assms(1)] .
  from result_dates[OF assms(1) this] show ?thesis by simp
qed

theorem congratulation_on_weekday_witness:
  "get_upcoming_birthdays monday example_book =
     Inr [(ustr ''Cy'', ustr ''10.06.2024''), (ustr ''Di'', ustr ''17.06.2024''), (ustr ''Ann'', ustr ''17.06.2024'')] \<and>
   (ustr ''Di'', ustr ''17.06.2024'') \<in>
     set [(ustr ''Cy'', ustr ''10.06.2024''), (ustr ''Di'', ustr ''17.06.2024''), (ustr ''Ann'', ustr ''17.06.2024'')] \<and>
   strptime (ustr ''17.06.2024'') = Inr \<lparr>year = 2024, month = 6, day = 17\<rparr> \<and>
   weekday \<lparr>year = 2024, month = 6, day = 17\<rparr> \<le> 4"
proof -
  have q: "get_upcoming_birthdays monday example_book =
     Inr [(ustr ''Cy'', ustr ''10.06.2024''), (ustr ''Di'', ustr ''17.06.2024''), (ustr ''Ann'', ustr ''17.06.2024'')]"
    by code_simp
  have m: "(ustr ''Di'', ustr ''17.06.2024'') \<in>
     set [(ustr ''Cy'', ustr ''10.06.2024''), (ustr ''Di'', ustr ''17.06.2024''), (ustr ''Ann'', ustr ''17.06.2024'')]"
    by simp
  have p: "strptime (ustr ''17.06.2024'') = Inr \<lparr>year = 2024, month = 6, day = 17\<rparr>" by code_simp
  from congratulation_on_weekday[OF q m] p
  have "weekday \<lparr>year = 2024, month = 6, day = 17\<rparr> \<le> 4" by auto
  with q m p show ?thesis by blast
qed

text \<open>The query returns whenever the occurrence of every birthday of the store can be
  constructed and the year of the evaluation date has four digits.\<close>

lemma get_upcoming_birthdays_returns:
  assumes "\<forall>kr \<in> set book. \<forall>b. birthday (snd kr) = Some b \<longrightarrow> (\<exists>occ. occurrence today b = Inr occ)"
    and "1000 \<le> year today"
  shows "\<exists>out. get_upcoming_birthdays today book = Inr out"
proof -
  have "\<exists>eo. upcoming_entry today r = Inr eo" if "r \<in> set (map snd book)" for r
  proof (cases "birthday r")
    case None
    then show ?thesis by (simp add: upcoming_entry_None)
  next
    case (Some b)
    from that obtain k where "(k, r) \<in> set book" by auto
    with assms(1) Some obtain occ where "occurrence today b = Inr occ" by force
    from upcoming_entry_Some[OF Some this] show ?thesis by simp
  qed
  then have "\<forall>r \<in> set (map snd book). \<exists>eo. upcoming_entry today r = Inr eo" by blast
  from get_upcoming_birthdays_total[OF this assms(2)] show ?thesis by blast
qed

end
